theory Spec2Isabelle
  imports Main "HOL-Library.Char_ord" "HOL-Library.List_Lexorder" "HOL-Library.Sublist"
begin

section \<open>Strings and the entity codec\<close>

text \<open>
  JavaScript strings are modelled as \<^typ>\<open>string\<close>: sequences of code units below 256.
  \<open>text.replace(/lit/g, rep)\<close> with a literal, non-empty pattern scans from the left,
  replaces the pattern where it starts and resumes after the replaced occurrence.
\<close>

function replaceAll :: "string \<Rightarrow> string \<Rightarrow> string \<Rightarrow> string" where
  "replaceAll pat rep [] = []"
| "replaceAll pat rep (c # cs) =
     (if pat \<noteq> [] \<and> prefix pat (c # cs)
      then rep @ replaceAll pat rep (drop (length pat) (c # cs))
      else c # replaceAll pat rep cs)"
  by pat_completeness auto
termination
  by (relation "measure (\<lambda>(pat, rep, s). length s)") (auto simp: neq_Nil_conv)

definition encodeEntities :: "string \<Rightarrow> string" where
  "encodeEntities text =
     replaceAll ''>'' ''&gt;'' (replaceAll ''<'' ''&lt;'' (replaceAll ''&'' ''&amp;'' text))"

definition encodeAttribEntities :: "string \<Rightarrow> string" where
  "encodeAttribEntities text =
     replaceAll [CHR 0x27] ''&apos;'' (replaceAll [CHR 0x22] ''&quot;''
       (replaceAll ''>'' ''&gt;'' (replaceAll ''<'' ''&lt;'' (replaceAll ''&'' ''&amp;'' text))))"

definition decodeEntities :: "string \<Rightarrow> string" where
  "decodeEntities text =
     (if CHR ''&'' \<in> set text
      then replaceAll ''&amp;'' ''&'' (replaceAll ''&apos;'' [CHR 0x27]
             (replaceAll ''&quot;'' [CHR 0x22] (replaceAll ''&gt;'' ''>''
               (replaceAll ''&lt;'' ''<'' text))))
      else text)"


section \<open>Character classes and the patterns of the scanner\<close>

text \<open>
  Each regular expression of \<open>XML.prototype\<close> is modelled by the function that computes
  its leftmost match. In the range of code units modelled here \<open>\s\<close> matches tab, line
  feed, vertical tab, form feed, carriage return, space and the no-break space; \<open>\w\<close>
  matches the ASCII letters, the digits and the underscore; \<open>.\<close> matches everything
  except the line terminators.
\<close>

definition is_space :: "char \<Rightarrow> bool" where
  "is_space c = (c \<in> set [CHR 0x09, CHR 0x0A, CHR 0x0B, CHR 0x0C, CHR 0x0D, CHR 0x20, CHR 0xA0])"

definition is_word :: "char \<Rightarrow> bool" where
  "is_word c = (c \<in> set ''ABCDEFGHIJKLMNOPQRSTUVWXYZabcdefghijklmnopqrstuvwxyz0123456789_'')"

text \<open>The class \<open>[\w\-:.]\<close> of tag and attribute names, and \<open>[\w\-:]\<close> of PI and DTD names.\<close>

definition is_name_char :: "char \<Rightarrow> bool" where
  "is_name_char c = (is_word c \<or> c = CHR ''-'' \<or> c = CHR '':'' \<or> c = CHR ''.'')"

definition is_pi_name_char :: "char \<Rightarrow> bool" where
  "is_pi_name_char c = (is_word c \<or> c = CHR ''-'' \<or> c = CHR '':'')"

definition is_line_terminator :: "char \<Rightarrow> bool" where
  "is_line_terminator c = (c = CHR 0x0A \<or> c = CHR 0x0D)"

definition skip_ws :: "string \<Rightarrow> string" where
  "skip_ws s = dropWhile is_space s"

text \<open>\<open>trim\<close>: \<open>text.trim()\<close>, and in the other copy the two anchored \<open>\s+\<close> replacements.\<close>

definition trim :: "string \<Rightarrow> string" where
  "trim text = rev (dropWhile is_space (rev (dropWhile is_space text)))"

text \<open>\<open>String.prototype.toLowerCase\<close> on code units below 256.\<close>

definition lower_char :: "char \<Rightarrow> char" where
  "lower_char c =
     (let n = (of_char c :: nat)
      in if (65 \<le> n \<and> n \<le> 90) \<or> (192 \<le> n \<and> n \<le> 222 \<and> n \<noteq> 215)
         then char_of (n + 32) else c)"

definition toLowerCase :: "string \<Rightarrow> string" where
  "toLowerCase s = map lower_char s"

text \<open>\<open>before.match(/\S/)\<close>\<close>

definition patNonSpace :: "string \<Rightarrow> bool" where
  "patNonSpace s = list_ex (\<lambda>c. \<not> is_space c) s"

text \<open>
  \<open>patTag = /([^<]*?)<([^>]+)>/g\<close>, run by \<open>exec\<close> on the text that starts at
  \<open>lastIndex\<close>. The lazy first group stops at the first \<open><\<close>; the tag body is the
  non-empty run up to the next \<open>>\<close>. Where the \<open><\<close> is directly followed by \<open>>\<close>
  no match starts at or before it, and the search resumes behind the \<open><\<close>. The result is
  the text before the tag, the tag body and the number of characters consumed.
\<close>

function patTag_scan :: "string \<Rightarrow> (string \<times> string \<times> nat) option" where
  "patTag_scan s =
     (case dropWhile (\<lambda>c. c \<noteq> CHR ''<'') s of
        [] \<Rightarrow> None
      | lt # r1 \<Rightarrow>
         (case dropWhile (\<lambda>c. c \<noteq> CHR ''>'') r1 of
            [] \<Rightarrow> None
          | gt # r2 \<Rightarrow>
             (let pre = takeWhile (\<lambda>c. c \<noteq> CHR ''<'') s;
                  tag = takeWhile (\<lambda>c. c \<noteq> CHR ''>'') r1
              in if tag = []
                 then map_option (\<lambda>(b, t, n). (b, t, length pre + 1 + n)) (patTag_scan r1)
                 else Some (pre, tag, length pre + 1 + length tag + 1))))"
  by pat_completeness auto
termination
proof (relation "measure length")
  fix s :: string and lt r1 gt r2
  assume "dropWhile (\<lambda>c. c \<noteq> CHR ''<'') s = lt # r1"
  then have "length (lt # r1) \<le> length s"
    by (metis length_dropWhile_le)
  then show "(r1, s) \<in> measure length" by simp
qed simp

declare patTag_scan.simps [simp del]

definition patTag_exec :: "string \<Rightarrow> nat \<Rightarrow> (string \<times> string \<times> nat) option" where
  "patTag_exec text i = map_option (\<lambda>(b, t, n). (b, t, i + n)) (patTag_scan (drop i text))"

text \<open>\<open>patNextClose = /([^>]*?)>/g\<close>: the segment up to the next \<open>>\<close> and the new index.\<close>

definition patNextClose_exec :: "string \<Rightarrow> nat \<Rightarrow> (string \<times> nat) option" where
  "patNextClose_exec text i =
     (let s = drop i text; seg = takeWhile (\<lambda>c. c \<noteq> CHR ''>'') s
      in if CHR ''>'' \<in> set s then Some (seg, i + length seg + 1) else None)"

text \<open>The tests \<open>patSpecialTag\<close>, \<open>patPITag\<close>, \<open>patCommentTag\<close>, \<open>patDTDTag\<close>, \<open>patCDATATag\<close>.\<close>

definition patSpecialTag :: "string \<Rightarrow> bool" where
  "patSpecialTag tag = (prefix ''!'' (skip_ws tag) \<or> prefix ''?'' (skip_ws tag))"

definition patPITag :: "string \<Rightarrow> bool" where
  "patPITag tag = prefix ''?'' (skip_ws tag)"

definition patCommentTag :: "string \<Rightarrow> bool" where
  "patCommentTag tag = prefix ''!--'' (skip_ws tag)"

definition patDTDTag :: "string \<Rightarrow> bool" where
  "patDTDTag tag = prefix ''!DOCTYPE'' (skip_ws tag)"

definition patCDATATag :: "string \<Rightarrow> bool" where
  "patCDATATag tag =
     (case skip_ws tag of
        [] \<Rightarrow> False
      | c # r \<Rightarrow> c = CHR ''!'' \<and>
          (case skip_ws r of
             [] \<Rightarrow> False
           | d # r1 \<Rightarrow> d = CHR ''['' \<and> prefix ''CDATA'' (skip_ws r1)))"

text \<open>
  \<open>patStandardTag = /^\s*(\/?)([\w\-:.]+)\s*([\s\S]*)$/\<close>: whether the tag is a closing
  tag, its name and the raw attribute text.
\<close>

definition patStandardTag :: "string \<Rightarrow> (bool \<times> string \<times> string) option" where
  "patStandardTag tag =
     (let s = skip_ws tag;
          closing = prefix ''/'' s;
          s1 = (if closing then tl s else s);
          nm = takeWhile is_name_char s1
      in if nm = [] then None
         else Some (closing, nm, skip_ws (dropWhile is_name_char s1)))"

text \<open>\<open>patSelfClosing = /\/\s*$/\<close>\<close>

definition patSelfClosing :: "string \<Rightarrow> bool" where
  "patSelfClosing s = prefix ''/'' (dropWhile is_space (rev s))"

text \<open>
  \<open>patAttrib = /([\w\-:.]+)\s*=\s*(["'])([^\2]*?)\2/g\<close>. Inside the class \<open>\2\<close> is the
  code unit 2, so the value is the shortest run free of that code unit up to the next
  quote equal to the opening one. \<open>attrib_at\<close> is the match that starts at the head of
  the string (name, value, rest); \<open>patAttrib_all\<close> is the sequence of \<open>exec\<close> results.
\<close>

definition attrib_at :: "string \<Rightarrow> (string \<times> string \<times> string) option" where
  "attrib_at s =
     (let nm = takeWhile is_name_char s
      in if nm = [] then None
         else (case skip_ws (dropWhile is_name_char s) of
                 [] \<Rightarrow> None
               | e # r2 \<Rightarrow>
                  if e \<noteq> CHR ''='' then None
                  else (case skip_ws r2 of
                          [] \<Rightarrow> None
                        | q # r4 \<Rightarrow>
                           if q \<noteq> CHR 0x22 \<and> q \<noteq> CHR 0x27 then None
                           else (let v = takeWhile (\<lambda>c. c \<noteq> q) r4
                                 in (case dropWhile (\<lambda>c. c \<noteq> q) r4 of
                                       [] \<Rightarrow> None
                                     | q' # rest \<Rightarrow>
                                        if CHR 0x02 \<in> set v then None
                                        else Some (nm, v, rest))))))"

lemma attrib_at_shorter: "attrib_at s = Some (k, v, rest) \<Longrightarrow> length rest < length s"
proof -
  have dw: "\<And>P (xs :: string) y ys. dropWhile P xs = y # ys \<Longrightarrow> length ys < length xs"
    by (metis length_dropWhile_le length_Cons less_eq_Suc_le)
  have dwle: "\<And>P (xs :: string). length (dropWhile P xs) \<le> length xs"
    by (rule length_dropWhile_le)
  assume "attrib_at s = Some (k, v, rest)"
  then obtain e r2 q r4 q' where
    a: "skip_ws (dropWhile is_name_char s) = e # r2" and
    b: "skip_ws r2 = q # r4" and
    c: "dropWhile (\<lambda>c. c \<noteq> q) r4 = q' # rest"
    by (auto simp: attrib_at_def Let_def split: list.splits if_splits)
  from c have "length rest < length r4" by (rule dw)
  also from b have "length r4 < length r2" unfolding skip_ws_def by (rule dw)
  also from a have "length r2 < length (dropWhile is_name_char s)"
    unfolding skip_ws_def by (rule dw)
  also have "\<dots> \<le> length s" by (rule dwle)
  finally show ?thesis .
qed

function patAttrib_all :: "string \<Rightarrow> (string \<times> string) list" where
  "patAttrib_all [] = []"
| "patAttrib_all (c # cs) =
     (case attrib_at (c # cs) of
        Some (k, v, rest) \<Rightarrow> (k, v) # patAttrib_all rest
      | None \<Rightarrow> patAttrib_all cs)"
  by pat_completeness auto
termination
  by (relation "measure length") (auto dest: attrib_at_shorter)

text \<open>\<open>patPINode = /^\s*\?\s*([\w\-:]+)\s*(.*)$/\<close>\<close>

definition patPINode :: "string \<Rightarrow> bool" where
  "patPINode tag =
     (let s = skip_ws tag
      in prefix ''?'' s \<and>
         (let r1 = skip_ws (tl s)
          in takeWhile is_pi_name_char r1 \<noteq> [] \<and>
             \<not> list_ex is_line_terminator (skip_ws (dropWhile is_pi_name_char r1))))"

text \<open>
  The common head \<open>^\s*!DOCTYPE\s+([\w\-:]+)\s+\<close> of the three DTD patterns: the text
  that follows it, when it matches.
\<close>

definition doctype_head :: "string \<Rightarrow> string option" where
  "doctype_head tag =
     (let s = skip_ws tag
      in if \<not> prefix ''!DOCTYPE'' s then None
         else (let r = drop 8 s; r1 = skip_ws r; r2 = dropWhile is_pi_name_char r1
               in if r1 = r \<or> takeWhile is_pi_name_char r1 = [] \<or> skip_ws r2 = r2 then None
                  else Some (skip_ws r2)))"

text \<open>\<open>patExternalDTDNode\<close>: the head, \<open>(SYSTEM|PUBLIC)\s+"([^"]+)"\<close>.\<close>

definition patExternalDTDNode :: "string \<Rightarrow> bool" where
  "patExternalDTDNode tag =
     (case doctype_head tag of
        None \<Rightarrow> False
      | Some r3 \<Rightarrow>
         (prefix ''SYSTEM'' r3 \<or> prefix ''PUBLIC'' r3) \<and>
         (let r4 = drop 6 r3
          in skip_ws r4 \<noteq> r4 \<and>
             (case skip_ws r4 of
                [] \<Rightarrow> False
              | q # r6 \<Rightarrow> q = CHR 0x22 \<and> takeWhile (\<lambda>c. c \<noteq> CHR 0x22) r6 \<noteq> [] \<and>
                    dropWhile (\<lambda>c. c \<noteq> CHR 0x22) r6 \<noteq> [])))"

text \<open>\<open>patInlineDTDNode\<close>: the head, then \<open>[\<close>.\<close>

definition patInlineDTDNode :: "string \<Rightarrow> bool" where
  "patInlineDTDNode tag =
     (case doctype_head tag of None \<Rightarrow> False | Some r3 \<Rightarrow> prefix ''['' r3)"

text \<open>\<open>patDTDNode\<close>: the head, then \<open>\[(.*)]\<close>: a \<open>]\<close> before any line terminator.\<close>

definition patDTDNode :: "string \<Rightarrow> bool" where
  "patDTDNode tag =
     (case doctype_head tag of
        None \<Rightarrow> False
      | Some r3 \<Rightarrow> prefix ''['' r3 \<and>
          CHR '']'' \<in> set (takeWhile (\<lambda>c. \<not> is_line_terminator c) (tl r3)))"

text \<open>
  \<open>patCDATANode = /^\s*!\s*\[\s*CDATA\s*\[([^]*)]]/\<close>: the greedy group ends at the last
  \<open>]]\<close> of the tag. \<open>before_last pat s\<close> is the text before the last occurrence of
  \<open>pat\<close> in \<open>s\<close>.
\<close>

fun before_last :: "string \<Rightarrow> string \<Rightarrow> string option" where
  "before_last pat [] = None"
| "before_last pat (c # cs) =
     (case before_last pat cs of
        Some p \<Rightarrow> Some (c # p)
      | None \<Rightarrow> if prefix pat (c # cs) then Some [] else None)"

definition patCDATANode :: "string \<Rightarrow> string option" where
  "patCDATANode tag =
     (case skip_ws tag of
        [] \<Rightarrow> None
      | c # r \<Rightarrow>
         if c \<noteq> CHR ''!'' then None
         else (case skip_ws r of
                 [] \<Rightarrow> None
               | d # r1 \<Rightarrow>
                  if d \<noteq> CHR ''['' \<or> \<not> prefix ''CDATA'' (skip_ws r1) then None
                  else (case skip_ws (drop 5 (skip_ws r1)) of
                          [] \<Rightarrow> None
                        | e # r4 \<Rightarrow> if e \<noteq> CHR ''['' then None else before_last '']]'' r4)))"

text \<open>\<open>patEndComment = /--$/\<close>, \<open>patEndDTD = /]$/\<close>, \<open>patEndCDATA = /]]$/\<close>\<close>

definition patEndComment :: "string \<Rightarrow> bool" where
  "patEndComment tag = suffix ''--'' tag"

definition patEndDTD :: "string \<Rightarrow> bool" where
  "patEndDTD tag = suffix '']'' tag"

definition patEndCDATA :: "string \<Rightarrow> bool" where
  "patEndCDATA tag = suffix '']]'' tag"

text \<open>\<open>re_valid_tag_name = /^\w[\w\-:.]*$/\<close>\<close>

definition re_valid_tag_name :: "string \<Rightarrow> bool" where
  "re_valid_tag_name s = (case s of [] \<Rightarrow> False | c # cs \<Rightarrow> is_word c \<and> list_all is_name_char cs)"


section \<open>Trees, objects and parser state\<close>

text \<open>
  A parsed value is a string, an object or an array. An object is the list of its own
  properties in the order in which \<open>for ... in\<close> and \<open>Object.keys\<close> enumerate them, with
  distinct keys; attribute values are strings stored as \<open>Text\<close>. \<open>Native k\<close> is the
  built-in function that every object inherits from \<open>Object.prototype\<close> under the name
  \<open>k\<close>: the parser meets it when it reads a property that the object does not own.
  Values \<open>null\<close>, \<open>undefined\<close> and numbers do not occur in trees, and an own property is
  never one of the built-in functions itself.
\<close>

datatype node =
    Text string
  | Element "(string \<times> node) list"
  | Sequence "node list"
  | Native string

type_synonym obj = "(string \<times> node) list"

text \<open>
  The function-valued members of \<open>Object.prototype\<close>. The accessor \<open>__proto__\<close> is not
  among them: assigning an object to it replaces the prototype, which this model of
  objects does not follow (see \<open>Unmodelled\<close> below).
\<close>

definition inherited_member :: "string \<Rightarrow> bool" where
  "inherited_member k = (k \<in> set [''constructor'', ''toString'', ''valueOf'',
     ''toLocaleString'', ''hasOwnProperty'', ''isPrototypeOf'', ''propertyIsEnumerable'',
     ''__defineGetter__'', ''__defineSetter__'', ''__lookupGetter__'', ''__lookupSetter__''])"

text \<open>\<open>h[k]\<close> read: the own property, else the inherited member, else \<open>undefined\<close>.\<close>

definition obj_get :: "obj \<Rightarrow> string \<Rightarrow> node option" where
  "obj_get h k =
     (case map_of h k of
        Some v \<Rightarrow> Some v
      | None \<Rightarrow> if inherited_member k then Some (Native k) else None)"

text \<open>
  A key that is the canonical decimal form of an integer below \<open>2^32 - 1\<close> is an array
  index; an object enumerates its array indices first, in ascending order, and its other
  keys after them in the order of their creation.
\<close>

fun digits_less :: "string \<Rightarrow> string \<Rightarrow> bool" where
  "digits_less (c # cs) (d # ds) = (c < d \<or> (c = d \<and> digits_less cs ds))"
| "digits_less cs ds = False"

definition is_array_index :: "string \<Rightarrow> bool" where
  "is_array_index k =
     (k \<noteq> [] \<and> list_all (\<lambda>c. c \<in> set ''0123456789'') k \<and>
      (k = ''0'' \<or> hd k \<noteq> CHR ''0'') \<and>
      (length k < 10 \<or> (length k = 10 \<and> digits_less k ''4294967295'')))"

text \<open>The numeric order of two array indices, read off their decimal forms.\<close>

definition index_less :: "string \<Rightarrow> string \<Rightarrow> bool" where
  "index_less j k = (length j < length k \<or> (length j = length k \<and> digits_less j k))"

fun insert_index :: "obj \<Rightarrow> string \<Rightarrow> node \<Rightarrow> obj" where
  "insert_index [] k v = [(k, v)]"
| "insert_index (p # ps) k v =
     (if is_array_index (fst p) \<and> index_less (fst p) k
      then p # insert_index ps k v else (k, v) # p # ps)"

fun replace_value :: "obj \<Rightarrow> string \<Rightarrow> node \<Rightarrow> obj" where
  "replace_value [] k v = []"
| "replace_value (p # ps) k v = (if fst p = k then (k, v) # ps else p # replace_value ps k v)"

text \<open>\<open>h[k] = v\<close>: an existing property keeps its place; a new one takes its place in the
  enumeration order.\<close>

definition obj_set :: "obj \<Rightarrow> string \<Rightarrow> node \<Rightarrow> obj" where
  "obj_set h k v =
     (if map_of h k \<noteq> None then replace_value h k v
      else if is_array_index k then insert_index h k v
      else h @ [(k, v)])"

text \<open>\<open>delete h[k]\<close> removes an own property.\<close>

definition obj_delete :: "obj \<Rightarrow> string \<Rightarrow> obj" where
  "obj_delete h k = filter (\<lambda>p. fst p \<noteq> k) h"

definition numKeys :: "obj \<Rightarrow> nat" where
  "numKeys h = length h"

definition firstKey :: "obj \<Rightarrow> string option" where
  "firstKey h = (case h of [] \<Rightarrow> None | p # ps \<Rightarrow> Some (fst p))"

definition hashKeysToArray :: "obj \<Rightarrow> string list" where
  "hashKeysToArray h = map fst h"

text \<open>
  String conversion of a value, as \<open>+\<close> with a string operand performs it; \<open>None\<close> is a
  \<open>TypeError\<close>. A plain object converts through the inherited \<open>toString\<close>; when it owns a
  property \<open>toString\<close> (a string, an object or an array, none of them callable) the
  conversion fails. An array joins the conversions of its members; a built-in function
  gives its source text.
\<close>

definition native_name :: "string \<Rightarrow> string" where
  "native_name k = (if k = ''constructor'' then ''Object'' else k)"

fun js_to_string :: "node \<Rightarrow> string option" and js_join :: "node list \<Rightarrow> string option" where
  "js_to_string (Text s) = Some s"
| "js_to_string (Element h) =
     (if map_of h ''toString'' \<noteq> None then None else Some ''[object Object]'')"
| "js_to_string (Sequence ns) = js_join ns"
| "js_to_string (Native k) = Some (''function '' @ native_name k @ ''() { [native code] }'')"
| "js_join [] = Some []"
| "js_join [n] = js_to_string n"
| "js_join (n # m # ns) =
     (case js_to_string n of
        None \<Rightarrow> None
      | Some a \<Rightarrow> (case js_join (m # ns) of None \<Rightarrow> None | Some b \<Rightarrow> Some (a @ '','' @ b)))"

text \<open>Decimal rendering of a number that holds an integer.\<close>

fun nat_to_string :: "nat \<Rightarrow> string" where
  "nat_to_string n =
     (if n < 10 then [char_of (48 + n)]
      else nat_to_string (n div 10) @ [char_of (48 + n mod 10)])"

declare nat_to_string.simps [simp del]

definition int_to_string :: "int \<Rightarrow> string" where
  "int_to_string i = (if i < 0 then ''-'' @ nat_to_string (nat (- i)) else nat_to_string (nat i))"

text \<open>The options of the parser, with the reserved keys.\<close>

record config =
  preserveDocumentNode :: bool
  preserveAttributes :: bool
  preserveWhitespace :: bool
  lowerCase :: bool
  forceArrays :: bool
  attribsKey :: string
  dataKey :: string

definition default_config :: config where
  "default_config = \<lparr> preserveDocumentNode = False, preserveAttributes = False,
     preserveWhitespace = False, lowerCase = False, forceArrays = False,
     attribsKey = ''_Attribs'', dataKey = ''_Data'' \<rparr>"

record parse_error =
  err_type :: string
  err_key :: string
  err_text :: string
  err_line :: int

text \<open>
  The fields of an \<open>XML\<close> instance. \<open>documentNodeName\<close> is \<open>None\<close> for \<open>null\<close>.
\<close>

record xml =
  xml_text :: string
  lastIndex :: nat
  errors :: "parse_error list"
  piNodeList :: "string list"
  dtdNodeList :: "string list"
  tree :: node
  documentNodeName :: "string option"

text \<open>
  What a call does: it returns; or it throws the \<open>Error\<close> of \<open>throwParseError\<close> with a
  message; or a string conversion throws a \<open>TypeError\<close> (the instance as the throw leaves
  it is kept in both cases). \<open>Unmodelled\<close> marks the use of \<open>__proto__\<close> as the name
  of a child or as a reserved key, where the source replaces the prototype of an object;
  \<open>Exhausted\<close> marks the end of the fuel that bounds the recursion of the model.
\<close>

datatype 'a outcome = Returned 'a | Thrown string xml | TypeError xml | Unmodelled | Exhausted

definition error :: "xml \<Rightarrow> nat" where
  "error this = length (errors this)"

definition getError :: "parse_error \<Rightarrow> string" where
  "getError e =
     (if err_type e = [] then ''General'' else err_type e) @ '' Error'' @
     '': '' @ err_key e @
     (if err_line e \<noteq> 0 then '' on line '' @ int_to_string (err_line e) else []) @
     (if err_text e \<noteq> [] then '': '' @ err_text e else [])"

definition getLastError :: "xml \<Rightarrow> string" where
  "getLastError this = (if error this = 0 then [] else getError (last (errors this)))"

definition count_newlines :: "string \<Rightarrow> nat" where
  "count_newlines s = length (filter (\<lambda>c. c = CHR 0x0A) s)"

text \<open>
  \<open>throwParseError\<close>: the line is counted in the text before \<open>patTag.lastIndex\<close>, less
  the line feeds of the tag; the error is recorded, then thrown.
\<close>

definition throwParseError :: "xml \<Rightarrow> string \<Rightarrow> string \<Rightarrow> 'a outcome" where
  "throwParseError this key tag =
     (let parsedSource = take (lastIndex this) (xml_text this);
          lineNum = int (count_newlines parsedSource) + 1 - int (count_newlines tag);
          this' = this\<lparr>errors := errors this @
            [\<lparr> err_type = ''Parse'', err_key = key, err_text = ''<'' @ tag @ ''>'',
               err_line = lineNum \<rparr>]\<rparr>
      in Thrown (getLastError this') this')"


section \<open>The special-tag scanners\<close>

text \<open>
  The loop shared by \<open>parseCommentNode\<close>, \<open>parseDTDNode\<close> and \<open>parseCDATANode\<close>: while
  the tag does not match the end pattern, \<open>patNextClose\<close> supplies the next segment, which
  is appended behind a \<open>>\<close>. \<open>Inl\<close> is the tag collected when the text ran out, \<open>Inr\<close>
  the closed tag with the index behind it.
\<close>

lemma takeWhile_neq_less: "x \<in> set s \<Longrightarrow> length (takeWhile (\<lambda>c. c \<noteq> x) s) < length s"
  by (induction s) auto

lemma patNextClose_exec_bounds:
  "patNextClose_exec text i = Some (seg, j) \<Longrightarrow> i < j \<and> j \<le> length text"
proof -
  assume a: "patNextClose_exec text i = Some (seg, j)"
  let ?s = "drop i text"
  from a have m: "CHR ''>'' \<in> set ?s"
    and j: "j = i + length (takeWhile (\<lambda>c. c \<noteq> CHR ''>'') ?s) + 1"
    by (auto simp: patNextClose_exec_def Let_def split: if_splits)
  from m have "length (takeWhile (\<lambda>c. c \<noteq> CHR ''>'') ?s) < length ?s"
    by (rule takeWhile_neq_less)
  with j show ?thesis by auto
qed

function nextCloseLoop ::
  "(string \<Rightarrow> bool) \<Rightarrow> string \<Rightarrow> nat \<Rightarrow> string \<Rightarrow> string + string \<times> nat" where
  "nextCloseLoop patEnd text i tag =
     (if patEnd tag then Inr (tag, i)
      else (case patNextClose_exec text i of
              None \<Rightarrow> Inl tag
            | Some (seg, j) \<Rightarrow> nextCloseLoop patEnd text j (tag @ ''>'' @ seg)))"
  by pat_completeness auto
termination
  apply (relation "measure (\<lambda>(patEnd, text, i, tag). length text - i)")
   apply simp
  apply (auto dest!: patNextClose_exec_bounds)
  done

declare nextCloseLoop.simps [simp del]

definition parsePINode :: "xml \<Rightarrow> string \<Rightarrow> (string \<times> xml) outcome" where
  "parsePINode this tag =
     (if \<not> patPINode tag then throwParseError this ''Malformed processor instruction'' tag
      else Returned (tag, this\<lparr>piNodeList := piNodeList this @ [tag]\<rparr>))"

definition parseCommentNode :: "xml \<Rightarrow> string \<Rightarrow> (string \<times> xml) outcome" where
  "parseCommentNode this tag =
     (case nextCloseLoop patEndComment (xml_text this) (lastIndex this) tag of
        Inl tag' \<Rightarrow> throwParseError this ''Unclosed comment tag'' tag'
      | Inr (tag', i) \<Rightarrow> Returned (tag', this\<lparr>lastIndex := i\<rparr>))"

definition parseDTDNode :: "xml \<Rightarrow> string \<Rightarrow> (string \<times> xml) outcome" where
  "parseDTDNode this tag =
     (if patExternalDTDNode tag
      then Returned (tag, this\<lparr>dtdNodeList := dtdNodeList this @ [tag]\<rparr>)
      else if patInlineDTDNode tag
      then (case nextCloseLoop patEndDTD (xml_text this) (lastIndex this) tag of
              Inl tag' \<Rightarrow> throwParseError this ''Unclosed DTD tag'' tag'
            | Inr (tag', i) \<Rightarrow>
               (let this' = this\<lparr>lastIndex := i\<rparr>
                in if patDTDNode tag'
                   then Returned (tag', this'\<lparr>dtdNodeList := dtdNodeList this' @ [tag']\<rparr>)
                   else throwParseError this' ''Malformed DTD tag'' tag'))
      else throwParseError this ''Malformed DTD tag'' tag)"

definition parseCDATANode :: "xml \<Rightarrow> string \<Rightarrow> (string \<times> xml) outcome" where
  "parseCDATANode this tag =
     (case nextCloseLoop patEndCDATA (xml_text this) (lastIndex this) tag of
        Inl tag' \<Rightarrow> throwParseError this ''Unclosed CDATA tag'' tag'
      | Inr (tag', i) \<Rightarrow>
         (let this' = this\<lparr>lastIndex := i\<rparr>
          in (case patCDATANode tag' of
                Some payload \<Rightarrow> Returned (payload, this')
              | None \<Rightarrow> throwParseError this' ''Malformed CDATA tag'' tag')))"

section \<open>The tree builder\<close>

text \<open>
  The repository holds two copies of the library. They differ in the parser at one place:
  the second copy turns a leaf without keys into the empty string.
\<close>

datatype copy = Xml_js | Part_000

text \<open>
  Text in front of a tag and CDATA payload go to the data key of the branch: decoded, and
  trimmed unless whitespace is kept. When the branch has a value under the data key
  already (its own or an inherited one), that value is converted to a string and the text
  is appended behind a space; the conversion can throw a \<open>TypeError\<close> (\<open>None\<close>).
\<close>

definition data_text :: "config \<Rightarrow> string \<Rightarrow> string" where
  "data_text cfg s = (if preserveWhitespace cfg then decodeEntities s else trim (decodeEntities s))"

definition append_data :: "config \<Rightarrow> obj \<Rightarrow> string \<Rightarrow> obj option" where
  "append_data cfg branch s =
     (case obj_get branch (dataKey cfg) of
        None \<Rightarrow> Some (obj_set branch (dataKey cfg) (Text (data_text cfg s)))
      | Some v \<Rightarrow>
         (case js_to_string v of
            None \<Rightarrow> None
          | Some t \<Rightarrow> Some (obj_set branch (dataKey cfg) (Text (t @ '' '' @ data_text cfg s)))))"

text \<open>
  The attributes of an opening tag, as the loop over \<open>patAttrib\<close> assigns them. Assigning
  a string to \<open>__proto__\<close> has no effect.
\<close>

definition attrib_pairs :: "config \<Rightarrow> string \<Rightarrow> (string \<times> node) list" where
  "attrib_pairs cfg attribsRaw =
     filter (\<lambda>p. fst p \<noteq> ''__proto__'')
       (map (\<lambda>(k, v). (if lowerCase cfg then toLowerCase k else k, Text (decodeEntities v)))
          (patAttrib_all attribsRaw))"

definition new_leaf :: "config \<Rightarrow> string \<Rightarrow> obj" where
  "new_leaf cfg attribsRaw =
     (let attribs = foldl (\<lambda>h (k, v). obj_set h k v) [] (attrib_pairs cfg attribsRaw)
      in if preserveAttributes cfg
         then (if numKeys attribs = 0 then [] else [(attribsKey cfg, Element attribs)])
         else attribs)"

text \<open>"Compress into simple node if text only", with the extra branch of the second copy.\<close>

definition compress :: "copy \<Rightarrow> config \<Rightarrow> obj \<Rightarrow> node" where
  "compress cp cfg leaf =
     (case obj_get leaf (dataKey cfg) of
        Some d \<Rightarrow>
          if numKeys leaf = 1 then d
          else if cp = Part_000 \<and> numKeys leaf = 0 then Text [] else Element leaf
      | None \<Rightarrow> if cp = Part_000 \<and> numKeys leaf = 0 then Text [] else Element leaf)"

text \<open>"Add leaf to parent branch"\<close>

definition add_leaf :: "config \<Rightarrow> bool \<Rightarrow> obj \<Rightarrow> string \<Rightarrow> node \<Rightarrow> obj" where
  "add_leaf cfg root branch nodeName leaf =
     (case obj_get branch nodeName of
        Some (Sequence ns) \<Rightarrow> obj_set branch nodeName (Sequence (ns @ [leaf]))
      | Some (Text s) \<Rightarrow> obj_set branch nodeName (Sequence [Text s, leaf])
      | Some (Element h) \<Rightarrow> obj_set branch nodeName (Sequence [Element h, leaf])
      | Some (Native k) \<Rightarrow> obj_set branch nodeName (Sequence [Native k, leaf])
      | None \<Rightarrow>
         if forceArrays cfg \<and> \<not> root then obj_set branch nodeName (Sequence [leaf])
         else obj_set branch nodeName leaf)"

text \<open>
  The branch of the master call is the object \<open>this.tree\<close>: what the master call does
  to its branch shows in the instance at once.
\<close>

definition sync :: "bool \<Rightarrow> obj \<Rightarrow> xml \<Rightarrow> xml" where
  "sync root branch this = (if root then this\<lparr>tree := Element branch\<rparr> else this)"

text \<open>
  The end of \<open>XML.parse\<close>, behind the loop: the missing closing tag, and for the master
  node the removal of the data key, the single-root check and the document node.
\<close>

definition name_text :: "string option \<Rightarrow> string" where
  "name_text name = (case name of None \<Rightarrow> ''null'' | Some n \<Rightarrow> n)"

definition parse_finish ::
  "config \<Rightarrow> obj \<Rightarrow> string option \<Rightarrow> bool \<Rightarrow> bool \<Rightarrow> xml \<Rightarrow> (obj \<times> xml) outcome" where
  "parse_finish cfg branch name root foundClosing this =
     (if name \<noteq> None \<and> name \<noteq> Some [] \<and> \<not> foundClosing
      then throwParseError this
             (''Missing closing tag (expected </'' @ name_text name @ ''>)'') (name_text name)
      else if root
      then (let t = (if obj_get branch (dataKey cfg) \<noteq> None
                     then obj_delete branch (dataKey cfg) else branch);
                this1 = this\<lparr>tree := Element t\<rparr>
            in if numKeys t > 1
               then throwParseError this1 ''Only one top-level node is allowed in document''
                      (name_text (firstKey t))
               else (case t of
                       [] \<Rightarrow> Returned (t, this1\<lparr>documentNodeName := None\<rparr>)
                     | (k, v) # ps \<Rightarrow>
                        Returned (t, this1\<lparr>tree := (if k \<noteq> [] \<and> \<not> preserveDocumentNode cfg
                                                      then v else Element t),
                                           documentNodeName := Some k\<rparr>)))
      else Returned (branch, this))"

text \<open>
  One turn of the loop of \<open>XML.parse\<close>: it throws, leaves the loop (with the value of
  \<open>foundClosing\<close>), goes on with the next tag, or has to parse the content of an
  opening tag first.
\<close>

datatype step =
    Throw "(obj \<times> xml) outcome"
  | Break obj bool xml
  | Continue obj xml
  | Recurse obj string obj xml

definition special_done :: "obj \<Rightarrow> (string \<times> xml) outcome \<Rightarrow> step" where
  "special_done branch r =
     (case r of
        Returned (tag, this) \<Rightarrow> Continue branch this
      | Thrown m this \<Rightarrow> Throw (Thrown m this)
      | TypeError this \<Rightarrow> Throw (TypeError this)
      | Unmodelled \<Rightarrow> Throw Unmodelled
      | Exhausted \<Rightarrow> Throw Exhausted)"

definition special_tag :: "config \<Rightarrow> bool \<Rightarrow> obj \<Rightarrow> xml \<Rightarrow> string \<Rightarrow> step" where
  "special_tag cfg root branch this tag =
     (if patPITag tag then special_done branch (parsePINode this tag)
      else if patCommentTag tag then special_done branch (parseCommentNode this tag)
      else if patDTDTag tag then special_done branch (parseDTDNode this tag)
      else if patCDATATag tag
      then (case parseCDATANode this tag of
              Returned (payload, this1) \<Rightarrow>
                (case append_data cfg branch payload of
                   None \<Rightarrow> Throw (TypeError this1)
                 | Some branch1 \<Rightarrow> Continue branch1 (sync root branch1 this1))
            | Thrown m this1 \<Rightarrow> Throw (Thrown m this1)
            | TypeError this1 \<Rightarrow> Throw (TypeError this1)
            | Unmodelled \<Rightarrow> Throw Unmodelled
            | Exhausted \<Rightarrow> Throw Exhausted)
      else Throw (throwParseError this ''Malformed special tag'' tag))"

text \<open>
  Compress the leaf, add it to the branch, and leave the loop at the master node. A child
  named \<open>__proto__\<close> would become the prototype of the branch.
\<close>

definition attach :: "copy \<Rightarrow> config \<Rightarrow> obj \<Rightarrow> bool \<Rightarrow> string \<Rightarrow> obj \<Rightarrow> xml \<Rightarrow> step" where
  "attach cp cfg branch root nodeName leaf this =
     (if nodeName = ''__proto__'' then Throw Unmodelled
      else (let branch1 = add_leaf cfg root branch nodeName (compress cp cfg leaf);
                this1 = sync root branch1 this
            in if error this \<noteq> 0 \<or> root then Break branch1 False this1
               else Continue branch1 this1))"

definition standard_tag ::
  "copy \<Rightarrow> config \<Rightarrow> obj \<Rightarrow> string option \<Rightarrow> bool \<Rightarrow> xml \<Rightarrow> string \<Rightarrow> step" where
  "standard_tag cp cfg branch name root this tag =
     (case patStandardTag tag of
        None \<Rightarrow> Throw (throwParseError this ''Malformed tag'' tag)
      | Some (closing, nm, attribsRaw) \<Rightarrow>
         (let nodeName = (if lowerCase cfg then toLowerCase nm else nm)
          in if closing
             then (if nodeName = (case name of None \<Rightarrow> [] | Some n \<Rightarrow> n)
                   then Break branch True this
                   else Throw (throwParseError this
                          (''Mismatched closing tag (expected </'' @ name_text name @ ''>)'') tag))
             else if patSelfClosing attribsRaw
             then attach cp cfg branch root nodeName (new_leaf cfg attribsRaw) this
             else Recurse branch nodeName (new_leaf cfg attribsRaw) this))"

definition parse_step ::
  "copy \<Rightarrow> config \<Rightarrow> obj \<Rightarrow> string option \<Rightarrow> bool \<Rightarrow> xml \<Rightarrow> step" where
  "parse_step cp cfg branch name root this =
     (case patTag_exec (xml_text this) (lastIndex this) of
        None \<Rightarrow> Break branch False (this\<lparr>lastIndex := 0\<rparr>)
      | Some (bef, tag, i) \<Rightarrow>
         (let this1 = this\<lparr>lastIndex := i\<rparr>
          in (case (if patNonSpace bef then append_data cfg branch bef else Some branch) of
                None \<Rightarrow> Throw (TypeError this1)
              | Some branch1 \<Rightarrow>
                 if patSpecialTag tag
                 then special_tag cfg root branch1 (sync root branch1 this1) tag
                 else standard_tag cp cfg branch1 name root (sync root branch1 this1) tag)))"

text \<open>Behind the recursive call: \<open>if (this.error()) break;\<close>, then the leaf is attached.\<close>

definition after_recursion ::
  "copy \<Rightarrow> config \<Rightarrow> obj \<Rightarrow> bool \<Rightarrow> string \<Rightarrow> obj \<Rightarrow> xml \<Rightarrow> step" where
  "after_recursion cp cfg branch root nodeName leaf this =
     (if error this \<noteq> 0 then Break branch False this
      else attach cp cfg branch root nodeName leaf this)"

definition leave :: "config \<Rightarrow> string option \<Rightarrow> bool \<Rightarrow> step \<Rightarrow> (obj \<times> xml) outcome" where
  "leave cfg name root s =
     (case s of
        Throw r \<Rightarrow> r
      | Break branch foundClosing this \<Rightarrow> parse_finish cfg branch name root foundClosing this
      | Continue branch this \<Rightarrow> Exhausted
      | Recurse branch nodeName leaf this \<Rightarrow> Exhausted)"

text \<open>
  \<open>XML.parse(branch, name)\<close>. \<open>root\<close> stands for \<open>branch === this.tree\<close>. The first
  argument bounds the number of nested turns; \<open>XML_constructor\<close> supplies more than the
  text can use.
\<close>

fun XML_parse ::
  "copy \<Rightarrow> config \<Rightarrow> nat \<Rightarrow> obj \<Rightarrow> string option \<Rightarrow> bool \<Rightarrow> xml \<Rightarrow> (obj \<times> xml) outcome" where
  "XML_parse cp cfg 0 branch name root this = Exhausted"
| "XML_parse cp cfg (Suc n) branch name root this =
     (case parse_step cp cfg branch name root this of
        Continue branch1 this1 \<Rightarrow> XML_parse cp cfg n branch1 name root this1
      | Recurse branch1 nodeName leaf this1 \<Rightarrow>
         (case XML_parse cp cfg n leaf (Some nodeName) False this1 of
            Returned (leaf2, this2) \<Rightarrow>
             (case after_recursion cp cfg branch1 root nodeName leaf2 this2 of
                Continue branch3 this3 \<Rightarrow> XML_parse cp cfg n branch3 name root this3
              | Throw r \<Rightarrow> r
              | Break b fc t \<Rightarrow> leave cfg name root (Break b fc t)
              | Recurse b nn l t \<Rightarrow> Exhausted)
          | Thrown m t \<Rightarrow> Thrown m t
          | TypeError t \<Rightarrow> TypeError t
          | Unmodelled \<Rightarrow> Unmodelled
          | Exhausted \<Rightarrow> Exhausted)
      | Throw r \<Rightarrow> r
      | Break b fc t \<Rightarrow> leave cfg name root (Break b fc t))"

text \<open>
  The constructor, called with the options and the text: it lower-cases the reserved
  keys when \<open>lowerCase\<close> is set and parses a non-empty text. With \<open>__proto__\<close> as a
  reserved key the parser would read and replace prototypes.
\<close>

definition XML_constructor :: "copy \<Rightarrow> config \<Rightarrow> string \<Rightarrow> xml outcome" where
  "XML_constructor cp opts text =
     (let cfg = (if lowerCase opts
                 then opts\<lparr>attribsKey := toLowerCase (attribsKey opts),
                           dataKey := toLowerCase (dataKey opts)\<rparr>
                 else opts);
          this = \<lparr> xml_text = text, lastIndex = 0, errors = [], piNodeList = [],
                   dtdNodeList = [], tree = Element [], documentNodeName = Some [] \<rparr>
      in if text = [] then Returned this
         else if attribsKey cfg = ''__proto__'' \<or> dataKey cfg = ''__proto__'' then Unmodelled
         else (case XML_parse cp cfg (Suc (length text)) [] None True this of
                 Returned (branch, this1) \<Rightarrow> Returned this1
               | Thrown m this1 \<Rightarrow> Thrown m this1
               | TypeError this1 \<Rightarrow> TypeError this1
               | Unmodelled \<Rightarrow> Unmodelled
               | Exhausted \<Rightarrow> Exhausted))"

definition getTree :: "xml \<Rightarrow> node" where
  "getTree this = tree this"

text \<open>
  The function \<open>parse(text, opts)\<close>:
  \<open>return parser.error() ? parser.getLastError() : parser.getTree()\<close>.
\<close>

definition parse :: "copy \<Rightarrow> string \<Rightarrow> config \<Rightarrow> node outcome" where
  "parse cp text opts =
     (case XML_constructor cp opts text of
        Returned parser \<Rightarrow>
          Returned (if error parser \<noteq> 0 then Text (getLastError parser) else getTree parser)
      | Thrown m this \<Rightarrow> Thrown m this
      | TypeError this \<Rightarrow> TypeError this
      | Unmodelled \<Rightarrow> Unmodelled
      | Exhausted \<Rightarrow> Exhausted)"


section \<open>The serializer\<close>

text \<open>
  \<open>stringify(node, name, indent, indent_string, eol, sort)\<close> of \<open>src/xml.js\<close>, with
  every argument given. An absent \<open>name\<close> is the empty string. The result is \<open>None\<close>
  when a conversion to a string throws a \<open>TypeError\<close>. \<open>own_entries\<close> lists what
  \<open>Object.keys\<close> and \<open>for ... in\<close> enumerate with the values behind the keys: the
  properties of an object, the indices of an array or of a string, nothing for a
  function. The loops over \<open>sorted_keys\<close> read \<open>node[key]\<close> for each key; with distinct
  keys that is the list of entries ordered by key.
\<close>

definition xml_header :: string where
  "xml_header = ''<?xml version='' @ [CHR 0x22] @ ''1.0'' @ [CHR 0x22] @ ''?>''"

fun own_entries :: "node \<Rightarrow> obj" where
  "own_entries (Element h) = h"
| "own_entries (Text s) = zip (map nat_to_string [0..<length s]) (map (\<lambda>c. Text [c]) s)"
| "own_entries (Sequence ns) = zip (map nat_to_string [0..<length ns]) ns"
| "own_entries (Native k) = []"

text \<open>
  \<open>name = firstKey(node); node = node[name]\<close> for an absent name at the root: without
  a first key the name is \<open>null\<close> and the node \<open>undefined\<close>, which is written like the
  empty string.
\<close>

definition root_name_node :: "node \<Rightarrow> string \<times> node" where
  "root_name_node node =
     (case own_entries node of
        [] \<Rightarrow> (''null'', Text [])
      | (k, v) # ps \<Rightarrow> (k, v))"

definition sorted_entries :: "bool \<Rightarrow> obj \<Rightarrow> obj" where
  "sorted_entries srt h = (if srt then sort_key fst h else h)"

text \<open>
  \<open>encodeEntities(x)\<close> and \<open>encodeAttribEntities(x)\<close> in a concatenation: a string is
  encoded; any other value without a property \<open>replace\<close> is returned as it is and then
  converted; an object that owns a property \<open>replace\<close> makes the call of it fail.
\<close>

definition encode_value :: "node \<Rightarrow> string option" where
  "encode_value v =
     (case v of
        Text s \<Rightarrow> Some (encodeEntities s)
      | Element h \<Rightarrow> if map_of h ''replace'' \<noteq> None then None else js_to_string v
      | Sequence ns \<Rightarrow> js_to_string v
      | Native k \<Rightarrow> js_to_string v)"

definition encode_attrib_value :: "node \<Rightarrow> string option" where
  "encode_attrib_value v =
     (case v of
        Text s \<Rightarrow> Some (encodeAttribEntities s)
      | Element h \<Rightarrow> if map_of h ''replace'' \<noteq> None then None else js_to_string v
      | Sequence ns \<Rightarrow> js_to_string v
      | Native k \<Rightarrow> js_to_string v)"

definition truthy :: "node \<Rightarrow> bool" where
  "truthy v = (case v of Text s \<Rightarrow> s \<noteq> [] | Element h \<Rightarrow> True | Sequence ns \<Rightarrow> True
     | Native k \<Rightarrow> True)"

text \<open>\<open>concat_all\<close>: the concatenation of the pieces, unless one of them failed.\<close>

definition concat_all :: "string option list \<Rightarrow> string option" where
  "concat_all xs = map_option concat (those xs)"

definition attribs_text :: "bool \<Rightarrow> obj \<Rightarrow> string option" where
  "attribs_text srt h =
     (case obj_get h ''_Attribs'' of
        None \<Rightarrow> Some []
      | Some a \<Rightarrow>
         concat_all
           (map (\<lambda>(key, v).
                   map_option (\<lambda>e. '' '' @ key @ ''='' @ [CHR 0x22] @ e @ [CHR 0x22])
                     (encode_attrib_value v))
              (sorted_entries srt (own_entries a))))"

definition has_attribs :: "obj \<Rightarrow> nat" where
  "has_attribs h = (case obj_get h ''_Attribs'' of None \<Rightarrow> 0 | Some a \<Rightarrow> 1)"

lemma size_entry: "(k, v) \<in> set h \<Longrightarrow> size v < size (Element h)"
  by (induction h) auto

lemma size_elem: "n \<in> set ns \<Longrightarrow> size n < size (Sequence ns)"
  by (induction ns) auto

lemma size_own_entries: "(k, v) \<in> set (own_entries node) \<Longrightarrow> size v \<le> size node"
proof (cases node)
  case (Text s)
  assume "(k, v) \<in> set (own_entries node)"
  with Text have "v \<in> set (map (\<lambda>c. Text [c]) s)"
    by (auto dest: set_zip_rightD)
  then show ?thesis by auto
next
  case (Element h)
  assume "(k, v) \<in> set (own_entries node)"
  with Element show ?thesis
    using size_entry [of k v h] by simp
next
  case (Sequence ns)
  assume "(k, v) \<in> set (own_entries node)"
  with Sequence have "v \<in> set ns"
    by (auto dest: set_zip_rightD)
  with Sequence show ?thesis
    using size_elem [of v ns] by simp
next
  case (Native x)
  assume "(k, v) \<in> set (own_entries node)"
  with Native show ?thesis by simp
qed

lemma size_root_name_node: "size (snd (root_name_node node)) \<le> size node"
proof (cases "own_entries node")
  case Nil
  then show ?thesis by (simp add: root_name_node_def)
next
  case (Cons p ps)
  then have "(fst p, snd p) \<in> set (own_entries node)" by simp
  then have "size (snd p) \<le> size node" by (rule size_own_entries)
  with Cons show ?thesis by (simp add: root_name_node_def split: prod.splits)
qed

lemma set_sorted_entries: "set (sorted_entries srt h) = set h"
  by (simp add: sorted_entries_def)

function stringify ::
  "node \<Rightarrow> string \<Rightarrow> nat \<Rightarrow> string \<Rightarrow> string \<Rightarrow> bool \<Rightarrow> string option" where
  "stringify node name indent indent_string eol srt =
     (let header = (if indent = 0 then xml_header @ eol else []);
          name1 = (if indent = 0 \<and> name = [] then fst (root_name_node node) else name);
          node1 = (if indent = 0 \<and> name = [] then snd (root_name_node node) else node);
          indent_text = concat (replicate indent indent_string)
      in (case node1 of
            Text s \<Rightarrow>
              Some (header @ indent_text @ ''<'' @ name1 @ ''>'' @ encodeEntities s @
                    ''</'' @ name1 @ ''>'' @ eol)
          | Native k \<Rightarrow>
              map_option (\<lambda>e. header @ indent_text @ ''<'' @ name1 @ ''>'' @ e @
                    ''</'' @ name1 @ ''>'' @ eol) (js_to_string (Native k))
          | Sequence ns \<Rightarrow>
              map_option (\<lambda>body. header @ body)
                (concat_all (map (\<lambda>n. stringify n name1 indent indent_string eol srt) ns))
          | Element h \<Rightarrow>
              (case attribs_text srt h of
                 None \<Rightarrow> None
               | Some attrs \<Rightarrow>
                  if numKeys h > has_attribs h
                  then (if (case obj_get h ''_Data'' of None \<Rightarrow> False | Some d \<Rightarrow> truthy d)
                        then map_option
                               (\<lambda>e. header @ indent_text @ ''<'' @ name1 @ attrs @ ''>'' @ e @
                                  ''</'' @ name1 @ ''>'' @ eol)
                               (case obj_get h ''_Data'' of
                                  None \<Rightarrow> None | Some d \<Rightarrow> encode_value d)
                        else map_option
                               (\<lambda>body. header @ indent_text @ ''<'' @ name1 @ attrs @ ''>'' @ eol @
                                  body @ indent_text @ ''</'' @ name1 @ ''>'' @ eol)
                               (concat_all
                                  (map (\<lambda>(key, v).
                                          if key \<noteq> ''_Attribs'' \<and> re_valid_tag_name key
                                          then stringify v key (indent + 1) indent_string eol srt
                                          else Some [])
                                     (sorted_entries srt h))))
                  else Some (header @ indent_text @ ''<'' @ name1 @ attrs @ ''/>'' @ eol))))"
  by pat_completeness auto
termination
proof (relation "measure (\<lambda>(node, name, indent, indent_string, eol, srt). size node)",
    goal_cases)
  case 1
  show ?case by simp
next
  case (2 node name indent indent_string eol srt x xa xb xc x2 x2a xd xe y)
  have "size xb \<le> size node"
    using 2(3) size_root_name_node [of node] by (simp split: if_splits)
  moreover have "(xe, y) \<in> set x2"
    using 2 by (simp add: set_sorted_entries)
  then have "size y < size (Element x2)" by (rule size_entry)
  ultimately show ?case using 2(5) by simp
next
  case (3 node name indent indent_string eol srt x xa xb xc x3 xd)
  have "size xb \<le> size node"
    using 3(3) size_root_name_node [of node] by (simp split: if_splits)
  moreover have "size xd < size xb"
    using 3(5,6) size_elem [of xd x3] by simp
  ultimately show ?case by simp
qed

declare stringify.simps [simp del]

section \<open>Proof-side descriptions of the codec\<close>

text \<open>
  \<open>stage q k\<close> is the image of one source character after encoding and \<open>k\<close> of the
  five decoding passes; \<open>q\<close> says whether the two quote characters were encoded
  (attribute text) or left alone (content text).
\<close>

definition stage :: "bool \<Rightarrow> nat \<Rightarrow> char \<Rightarrow> string" where
  "stage q k c =
     (if c = CHR ''<'' \<and> k < 1 then ''&lt;''
      else if c = CHR ''>'' \<and> k < 2 then ''&gt;''
      else if c = CHR 0x22 \<and> q \<and> k < 3 then ''&quot;''
      else if c = CHR 0x27 \<and> q \<and> k < 4 then ''&apos;''
      else if c = CHR ''&'' \<and> k < 5 then ''&amp;''
      else [c])"

text \<open>An instance in the middle of a parse: the text, the index of \<open>patTag\<close>, no error yet.\<close>

definition instance_at :: "string \<Rightarrow> nat \<Rightarrow> xml" where
  "instance_at s i = \<lparr> xml_text = s, lastIndex = i, errors = [], piNodeList = [],
     dtdNodeList = [], tree = Element [], documentNodeName = Some [] \<rparr>"

text \<open>The error record that \<open>throwParseError(key, tag)\<close> pushes on the error list.\<close>

definition parse_error_at :: "xml \<Rightarrow> string \<Rightarrow> string \<Rightarrow> parse_error" where
  "parse_error_at this key tag =
     \<lparr> err_type = ''Parse'', err_key = key, err_text = ''<'' @ tag @ ''>'',
       err_line = int (count_newlines (take (lastIndex this) (xml_text this))) + 1
                  - int (count_newlines tag) \<rparr>"

text \<open>
  \<open>advanced this t\<close>: the instance \<open>t\<close> continues \<open>this\<close> on the same text with the same
  errors and a larger index inside the text. \<open>sound_outcome this named r\<close> describes what
  a call started at \<open>this\<close> may yield: it neither runs out of fuel nor leaves the model;
  a thrown \<open>Error\<close> carries the formatted last error of a non-empty error list; a
  \<open>TypeError\<close> and a return keep text and errors, and a return has advanced when the
  call had a name to close.
\<close>

definition advanced :: "xml \<Rightarrow> xml \<Rightarrow> bool" where
  "advanced this t =
     (xml_text t = xml_text this \<and> errors t = errors this \<and>
      lastIndex this < lastIndex t \<and> lastIndex t \<le> length (xml_text this))"

definition sound_outcome :: "xml \<Rightarrow> bool \<Rightarrow> (obj \<times> xml) outcome \<Rightarrow> bool" where
  "sound_outcome this named r =
     (case r of
        Exhausted \<Rightarrow> False
      | Unmodelled \<Rightarrow> False
      | Thrown m s \<Rightarrow> m = getLastError s \<and> errors s \<noteq> []
      | TypeError t \<Rightarrow> errors t = errors this
      | Returned (b, t) \<Rightarrow>
          xml_text t = xml_text this \<and> errors t = errors this \<and>
          (if named then advanced this t else True))"

definition sound_step :: "xml \<Rightarrow> step \<Rightarrow> bool" where
  "sound_step this s =
     (case s of
        Throw r \<Rightarrow> (case r of Thrown m t \<Rightarrow> m = getLastError t \<and> errors t \<noteq> []
                    | TypeError t \<Rightarrow> errors t = errors this
                    | Unmodelled \<Rightarrow> False | Returned x \<Rightarrow> False | Exhausted \<Rightarrow> False)
      | Break b fc t \<Rightarrow> xml_text t = xml_text this \<and> errors t = errors this \<and>
                        (if fc then advanced this t else True)
      | Continue b t \<Rightarrow> advanced this t
      | Recurse b nn l t \<Rightarrow> advanced this t \<and> nn \<noteq> [] \<and> nn \<noteq> ''__proto__'')"

text \<open>What a special-tag scanner may yield.\<close>

definition sound_special :: "xml \<Rightarrow> (string \<times> xml) outcome \<Rightarrow> bool" where
  "sound_special this r =
     (case r of
        Exhausted \<Rightarrow> False
      | Unmodelled \<Rightarrow> False
      | TypeError t \<Rightarrow> False
      | Thrown m s \<Rightarrow> m = getLastError s \<and> errors s \<noteq> []
      | Returned (tag, t) \<Rightarrow>
          xml_text t = xml_text this \<and> errors t = errors this \<and>
          lastIndex this \<le> lastIndex t \<and> lastIndex t \<le> length (xml_text this))"

text \<open>The text holds \<open>__proto__\<close> nowhere, in no letter case.\<close>

definition proto_free :: "string \<Rightarrow> bool" where
  "proto_free s = (\<not> sublist ''__proto__'' (toLowerCase s))"

text \<open>
  \<open>raises this key tag\<close>: the error \<open>key\<close> for \<open>tag\<close> has been pushed on the error list of
  \<open>this\<close>, with the line counted in the text before the index less the line feeds of the
  tag, and an \<open>Error\<close> with the formatted message has been thrown.
\<close>

definition raises :: "xml \<Rightarrow> string \<Rightarrow> string \<Rightarrow> 'a outcome" where
  "raises this key tag =
     (let line = int (count_newlines (take (lastIndex this) (xml_text this))) + 1
                 - int (count_newlines tag)
      in Thrown (''Parse Error: '' @ key @
                 (if line \<noteq> 0 then '' on line '' @ int_to_string line else []) @
                 '': <'' @ tag @ ''>'')
           (this\<lparr>errors := errors this @
              [\<lparr> err_type = ''Parse'', err_key = key, err_text = ''<'' @ tag @ ''>'',
                 err_line = line \<rparr>]\<rparr>))"


section \<open>The entity codec is invertible\<close>

lemma replaceAll_single:
  "replaceAll [p] rep s = concat (map (\<lambda>c. if c = p then rep else [c]) s)"
  by (induction s) auto

lemma encodeEntities_stage: "encodeEntities s = concat (map (stage False 0) s)"
  unfolding encodeEntities_def replaceAll_single
  by (induction s) (auto simp: stage_def)

lemma encodeAttribEntities_stage: "encodeAttribEntities s = concat (map (stage True 0) s)"
  unfolding encodeAttribEntities_def replaceAll_single
  by (induction s) (auto simp: stage_def)

lemma decode_pass_lt:
  "replaceAll ''&lt;'' ''<'' (concat (map (stage q 0) s)) = concat (map (stage q 1) s)"
  by (induction s) (auto simp: stage_def)

lemma decode_pass_gt:
  "replaceAll ''&gt;'' ''>'' (concat (map (stage q 1) s)) = concat (map (stage q 2) s)"
  by (induction s) (auto simp: stage_def)

lemma decode_pass_quot:
  "replaceAll ''&quot;'' [CHR 0x22] (concat (map (stage q 2) s)) = concat (map (stage q 3) s)"
  by (induction s) (auto simp: stage_def)

lemma decode_pass_apos:
  "replaceAll ''&apos;'' [CHR 0x27] (concat (map (stage q 3) s)) = concat (map (stage q 4) s)"
  by (induction s) (auto simp: stage_def)

lemma decode_pass_amp:
  "replaceAll ''&amp;'' ''&'' (concat (map (stage q 4) s)) = concat (map (stage q 5) s)"
  by (induction s) (auto simp: stage_def)

lemma stage_done: "concat (map (stage q 5) s) = s"
  by (induction s) (auto simp: stage_def)

lemma stage_no_amp:
  "CHR ''&'' \<notin> set (concat (map (stage q 0) s)) \<Longrightarrow> concat (map (stage q 0) s) = s"
  by (induction s) (auto simp: stage_def split: if_splits)

lemma decode_stage: "decodeEntities (concat (map (stage q 0) s)) = s"
proof (cases "CHR ''&'' \<in> set (concat (map (stage q 0) s))")
  case True
  then show ?thesis
    unfolding decodeEntities_def
    by (simp only: if_True decode_pass_lt decode_pass_gt decode_pass_quot decode_pass_apos
        decode_pass_amp stage_done)
next
  case False
  then have "decodeEntities (concat (map (stage q 0) s)) = concat (map (stage q 0) s)"
    by (simp add: decodeEntities_def)
  also have "\<dots> = s"
    by (rule stage_no_amp [OF False])
  finally show ?thesis .
qed

text \<open>
  C2. Decoding undoes encoding on every string, for content text (\<open>encodeEntities\<close>) and
  for attribute text (\<open>encodeAttribEntities\<close>): the strings may hold any mix of the five
  special characters and ordinary characters.
\<close>

theorem entity_codec_roundtrip:
  "decodeEntities (encodeEntities s) = s \<and> decodeEntities (encodeAttribEntities s) = s"
  by (simp only: encodeEntities_stage encodeAttribEntities_stage decode_stage)

section \<open>The greedy scans for a terminator\<close>

lemma prefix_before_sep: "prefix a (b @ c # d) \<Longrightarrow> c \<notin> set a \<Longrightarrow> prefix a b"
proof (induction a arbitrary: b)
  case Nil
  show ?case by simp
next
  case (Cons x a)
  show ?case
  proof (cases b)
    case Nil
    with Cons.prems(1) have "x = c" by simp
    with Cons.prems(2) show ?thesis by simp
  next
    case (Cons y b')
    with Cons.prems(1) have xy: "x = y" and p: "prefix a (b' @ c # d)" by simp_all
    from Cons.prems(2) have "c \<notin> set a" by simp
    with p have "prefix a b'" by (rule Cons.IH)
    with xy Cons show ?thesis by simp
  qed
qed

lemma suffix_past_sep:
  assumes "suffix t (xs @ c # seg)" and "c \<notin> set t"
  shows "suffix t seg"
proof -
  from assms(1) have "prefix (rev t) (rev seg @ c # rev xs)"
    by (simp add: suffix_to_prefix)
  with assms(2) have "prefix (rev t) (rev seg)"
    by (intro prefix_before_sep [of "rev t" "rev seg" c "rev xs"]) auto
  then show ?thesis by (simp add: suffix_to_prefix)
qed

lemma drop_dropWhile_split:
  "x \<in> set s \<Longrightarrow> s = takeWhile (\<lambda>c. c \<noteq> x) s @ x # drop (length (takeWhile (\<lambda>c. c \<noteq> x) s) + 1) s"
  by (induction s) auto

lemma patNextClose_exec_split:
  assumes "patNextClose_exec tx i = Some (seg, j)"
  shows "drop i tx = seg @ ''>'' @ drop j tx" and "CHR ''>'' \<notin> set seg"
proof -
  let ?s = "drop i tx"
  from assms have m: "CHR ''>'' \<in> set ?s"
    and seg: "seg = takeWhile (\<lambda>c. c \<noteq> CHR ''>'') ?s"
    and j: "j = i + length seg + 1"
    by (auto simp: patNextClose_exec_def Let_def split: if_splits)
  from drop_dropWhile_split [OF m]
  have "?s = seg @ CHR ''>'' # drop (length seg + 1) ?s"
    unfolding seg .
  then show "drop i tx = seg @ ''>'' @ drop j tx"
    using j by (simp add: add.commute add.left_commute)
  show "CHR ''>'' \<notin> set seg"
    unfolding seg by (auto dest: set_takeWhileD)
qed

lemma nextCloseLoop_unclosed:
  assumes pe: "\<And>s. patEnd s = suffix t s" and nt: "CHR ''>'' \<notin> set t"
  shows "\<not> patEnd tag \<Longrightarrow> \<not> sublist (t @ ''>'') (drop i tx) \<Longrightarrow>
    \<exists>tag'. nextCloseLoop patEnd tx i tag = Inl tag' \<and> prefix tag tag'"
  using pe
proof (induction patEnd tx i tag rule: nextCloseLoop.induct)
  case (1 patEnd tx i tag)
  show ?case
  proof (cases "patNextClose_exec tx i")
    case None
    with 1(2) show ?thesis by (simp add: nextCloseLoop.simps [of patEnd tx i tag])
  next
    case (Some a)
    obtain seg j where a: "a = (seg, j)" by (cases a)
    from Some a have sp: "drop i tx = seg @ ''>'' @ drop j tx"
      by (simp add: patNextClose_exec_split)
    have n1: "\<not> patEnd (tag @ ''>'' @ seg)"
    proof
      assume "patEnd (tag @ ''>'' @ seg)"
      then have "suffix t (tag @ CHR ''>'' # seg)" by (simp add: 1(4))
      then have "suffix t seg" using nt by (rule suffix_past_sep)
      then obtain u where "seg = u @ t" by (auto simp: suffix_def)
      with sp have "drop i tx = u @ (t @ ''>'') @ drop j tx" by simp
      then have "sublist (t @ ''>'') (drop i tx)" unfolding sublist_def by blast
      with 1(3) show False by simp
    qed
    have n2: "\<not> sublist (t @ ''>'') (drop j tx)"
    proof
      assume "sublist (t @ ''>'') (drop j tx)"
      then obtain p q where "drop j tx = p @ (t @ ''>'') @ q" unfolding sublist_def by blast
      with sp have "drop i tx = (seg @ ''>'' @ p) @ (t @ ''>'') @ q" by simp
      then have "sublist (t @ ''>'') (drop i tx)" unfolding sublist_def by blast
      with 1(3) show False by simp
    qed
    from 1(1) [OF 1(2) Some a [symmetric] n1 n2 1(4)]
    obtain tag' where r: "nextCloseLoop patEnd tx j (tag @ ''>'' @ seg) = Inl tag'"
      and p: "prefix (tag @ ''>'' @ seg) tag'" by blast
    have "nextCloseLoop patEnd tx i tag = nextCloseLoop patEnd tx j (tag @ ''>'' @ seg)"
      using 1(2) Some a by (subst nextCloseLoop.simps) simp
    moreover from p have "prefix tag tag'" by (rule append_prefixD)
    ultimately show ?thesis using r by simp
  qed
qed

lemma nextCloseLoop_bounded:
  "i \<le> length tx \<Longrightarrow>
   (case nextCloseLoop patEnd tx i tag of
      Inl tag' \<Rightarrow> length tag' \<le> length tag + (length tx - i)
    | Inr (tag', j) \<Rightarrow> length tag' = length tag + (j - i) \<and> i \<le> j \<and> j \<le> length tx)"
proof (induction patEnd tx i tag rule: nextCloseLoop.induct)
  case (1 patEnd tx i tag)
  show ?case
  proof (cases "patEnd tag")
    case True
    with 1(2) show ?thesis by (simp add: nextCloseLoop.simps [of patEnd tx i tag])
  next
    case False
    show ?thesis
    proof (cases "patNextClose_exec tx i")
      case None
      with False show ?thesis by (simp add: nextCloseLoop.simps [of patEnd tx i tag])
    next
      case (Some a)
      obtain seg j where a: "a = (seg, j)" by (cases a)
      from Some a have b: "i < j \<and> j \<le> length tx"
        by (simp add: patNextClose_exec_bounds)
      from Some a have j: "j = i + length seg + 1"
        by (auto simp: patNextClose_exec_def Let_def split: if_splits)
      from b have jl: "j \<le> length tx" by simp
      have step: "nextCloseLoop patEnd tx i tag = nextCloseLoop patEnd tx j (tag @ ''>'' @ seg)"
        using False Some a by (subst nextCloseLoop.simps) simp
      show ?thesis
      proof (cases "nextCloseLoop patEnd tx j (tag @ ''>'' @ seg)")
        case (Inl tag')
        with 1(1) [OF False Some a [symmetric] jl]
        have "length tag' \<le> length (tag @ ''>'' @ seg) + (length tx - j)" by simp
        with j b have "length tag' \<le> length tag + (length tx - i)" by simp
        with step Inl show ?thesis by simp
      next
        case (Inr r)
        obtain tag' k where r: "r = (tag', k)" by (cases r)
        with Inr 1(1) [OF False Some a [symmetric] jl]
        have "length tag' = length (tag @ ''>'' @ seg) + (k - j) \<and> j \<le> k \<and> k \<le> length tx"
          by simp
        with j b have "length tag' = length tag + (k - i) \<and> i \<le> k \<and> k \<le> length tx" by auto
        with step Inr r show ?thesis by simp
      qed
    qed
  qed
qed

lemma throwParseError_raises: "throwParseError this key tag = raises this key tag"
  by (simp add: throwParseError_def raises_def Let_def getLastError_def error_def getError_def)

lemma patNextClose_exec_None:
  "patNextClose_exec tx i = None \<Longrightarrow> CHR ''>'' \<notin> set (drop i tx)"
  by (simp add: patNextClose_exec_def Let_def split: if_splits)

lemma nextCloseLoop_exhausts:
  "nextCloseLoop patEnd tx i tag = Inl tag' \<Longrightarrow>
     length tag \<le> length tag' \<and>
     CHR ''>'' \<notin> set (drop (i + (length tag' - length tag)) tx)"
proof (induction patEnd tx i tag rule: nextCloseLoop.induct)
  case (1 patEnd tx i tag)
  show ?case
  proof (cases "patEnd tag")
    case True
    with "1.prems" show ?thesis by (subst (asm) nextCloseLoop.simps) simp
  next
    case False
    show ?thesis
    proof (cases "patNextClose_exec tx i")
      case None
      with False "1.prems" have "tag' = tag"
        by (subst (asm) nextCloseLoop.simps) simp
      with patNextClose_exec_None [OF None] show ?thesis by simp
    next
      case (Some p)
      obtain seg j where p: "p = (seg, j)" by (cases p)
      from Some p have e: "patNextClose_exec tx i = Some (seg, j)" by simp
      from e have j: "j = i + length seg + 1"
        by (auto simp: patNextClose_exec_def Let_def split: if_splits)
      from False e "1.prems"
      have "nextCloseLoop patEnd tx j (tag @ ''>'' @ seg) = Inl tag'"
        by (subst (asm) nextCloseLoop.simps) simp
      from "1.IH" [OF False e refl this]
      have ih: "length (tag @ ''>'' @ seg) \<le> length tag' \<and>
        CHR ''>'' \<notin> set (drop (j + (length tag' - length (tag @ ''>'' @ seg))) tx)" .
      then have l: "length (tag @ ''>'' @ seg) \<le> length tag'" by (rule conjunct1)
      from l j
      have eq: "j + (length tag' - length (tag @ ''>'' @ seg)) = i + (length tag' - length tag)"
        by simp
      from ih have "CHR ''>'' \<notin> set (drop (j + (length tag' - length (tag @ ''>'' @ seg))) tx)"
        by (rule conjunct2)
      then have "CHR ''>'' \<notin> set (drop (i + (length tag' - length tag)) tx)"
        unfolding eq .
      with l show ?thesis by simp
    qed
  qed
qed

lemma unclosed_scan:
  assumes pe: "\<And>s. patEnd s = suffix t s" and nt: "CHR ''>'' \<notin> set t"
    and "\<not> patEnd tag" and "\<not> sublist (t @ ''>'') (drop i tx)"
  shows "\<exists>tag'. nextCloseLoop patEnd tx i tag = Inl tag' \<and> prefix tag tag' \<and>
           CHR ''>'' \<notin> set (drop (i + (length tag' - length tag)) tx)"
proof -
  from nextCloseLoop_unclosed [where patEnd = patEnd and t = t, OF pe nt assms(3,4)]
  obtain tag' where a: "nextCloseLoop patEnd tx i tag = Inl tag'" and b: "prefix tag tag'"
    by blast
  from nextCloseLoop_exhausts [OF a] a b show ?thesis by blast
qed

lemma parseCommentNode_unclosed:
  assumes "\<not> patEndComment tag" and "\<not> sublist ''-->'' (drop (lastIndex this) (xml_text this))"
  shows "\<exists>tag'. prefix tag tag' \<and>
           CHR ''>'' \<notin> set (drop (lastIndex this + (length tag' - length tag)) (xml_text this)) \<and>
           parseCommentNode this tag = raises this ''Unclosed comment tag'' tag'"
proof -
  from unclosed_scan [where patEnd = patEndComment and t = "''--''" and tag = tag
      and i = "lastIndex this" and tx = "xml_text this"] assms
  obtain tag' where "nextCloseLoop patEndComment (xml_text this) (lastIndex this) tag = Inl tag'"
    and "prefix tag tag'"
    and "CHR ''>'' \<notin> set (drop (lastIndex this + (length tag' - length tag)) (xml_text this))"
    by (auto simp: patEndComment_def)
  then show ?thesis
    by (auto simp: parseCommentNode_def throwParseError_raises)
qed

lemma parseCDATANode_unclosed:
  assumes "\<not> patEndCDATA tag" and "\<not> sublist '']]>'' (drop (lastIndex this) (xml_text this))"
  shows "\<exists>tag'. prefix tag tag' \<and>
           CHR ''>'' \<notin> set (drop (lastIndex this + (length tag' - length tag)) (xml_text this)) \<and>
           parseCDATANode this tag = raises this ''Unclosed CDATA tag'' tag'"
proof -
  from unclosed_scan [where patEnd = patEndCDATA and t = "'']]''" and tag = tag
      and i = "lastIndex this" and tx = "xml_text this"] assms
  obtain tag' where "nextCloseLoop patEndCDATA (xml_text this) (lastIndex this) tag = Inl tag'"
    and "prefix tag tag'"
    and "CHR ''>'' \<notin> set (drop (lastIndex this + (length tag' - length tag)) (xml_text this))"
    by (auto simp: patEndCDATA_def)
  then show ?thesis
    by (auto simp: parseCDATANode_def throwParseError_raises)
qed

lemma parseDTDNode_unclosed:
  assumes "\<not> patExternalDTDNode tag" and "patInlineDTDNode tag" and "\<not> patEndDTD tag"
    and "\<not> sublist '']>'' (drop (lastIndex this) (xml_text this))"
  shows "\<exists>tag'. prefix tag tag' \<and>
           CHR ''>'' \<notin> set (drop (lastIndex this + (length tag' - length tag)) (xml_text this)) \<and>
           parseDTDNode this tag = raises this ''Unclosed DTD tag'' tag'"
proof -
  from unclosed_scan [where patEnd = patEndDTD and t = "'']''" and tag = tag
      and i = "lastIndex this" and tx = "xml_text this"] assms
  obtain tag' where "nextCloseLoop patEndDTD (xml_text this) (lastIndex this) tag = Inl tag'"
    and "prefix tag tag'"
    and "CHR ''>'' \<notin> set (drop (lastIndex this + (length tag' - length tag)) (xml_text this))"
    by (auto simp: patEndDTD_def)
  with assms show ?thesis
    by (auto simp: parseDTDNode_def throwParseError_raises)
qed


section \<open>Every parse throws or returns, within its fuel\<close>

lemma takeWhile_dropWhile_length:
  "dropWhile P s = x # r \<Longrightarrow> length (takeWhile P s) + 1 + length r = length s"
proof -
  assume a: "dropWhile P s = x # r"
  have "length (takeWhile P s) + length (dropWhile P s) = length s"
    by (metis length_append takeWhile_dropWhile_id)
  with a show ?thesis by simp
qed

lemma patTag_scan_bounds:
  "patTag_scan s = Some (b, t, n) \<Longrightarrow> 0 < n \<and> n \<le> length s"
proof (induction s arbitrary: b t n rule: patTag_scan.induct)
  case (1 s)
  from "1.prems" obtain lt r1 where d1: "dropWhile (\<lambda>c. c \<noteq> CHR ''<'') s = lt # r1"
    by (subst (asm) patTag_scan.simps) (auto split: list.splits)
  from "1.prems" d1 obtain gt r2 where d2: "dropWhile (\<lambda>c. c \<noteq> CHR ''>'') r1 = gt # r2"
    by (subst (asm) patTag_scan.simps) (auto split: list.splits)
  let ?pre = "takeWhile (\<lambda>c. c \<noteq> CHR ''<'') s"
  let ?tag = "takeWhile (\<lambda>c. c \<noteq> CHR ''>'') r1"
  from d1 have l1: "length ?pre + 1 + length r1 = length s"
    by (rule takeWhile_dropWhile_length)
  from d2 have l2: "length ?tag + 1 + length r2 = length r1"
    by (rule takeWhile_dropWhile_length)
  show ?case
  proof (cases "?tag = []")
    case True
    with "1.prems" d1 d2 obtain b' t' n' where
      r: "patTag_scan r1 = Some (b', t', n')" and n: "n = length ?pre + 1 + n'"
      by (subst (asm) patTag_scan.simps) (auto simp: Let_def split: prod.splits)
    from "1.IH" [OF d1 d2 refl refl True r] have "0 < n' \<and> n' \<le> length r1" .
    with n l1 show ?thesis by simp
  next
    case False
    with "1.prems" d1 d2 have "n = length ?pre + 1 + length ?tag + 1"
      by (subst (asm) patTag_scan.simps) (auto simp: Let_def)
    with l1 l2 show ?thesis by simp
  qed
qed

lemma patTag_exec_bounds:
  "patTag_exec tx i = Some (b, t, j) \<Longrightarrow> i \<le> length tx \<Longrightarrow> i < j \<and> j \<le> length tx"
  by (auto simp: patTag_exec_def dest!: patTag_scan_bounds)

lemma throwParseError_Thrown:
  "\<exists>s. throwParseError this k t = Thrown (getLastError s) s \<and> errors s \<noteq> [] \<and>
     xml_text s = xml_text this"
  by (simp add: throwParseError_def Let_def)

lemma nextCloseLoop_index:
  "nextCloseLoop patEnd tx i tag = Inr (tag', j) \<Longrightarrow> i \<le> length tx \<Longrightarrow> i \<le> j \<and> j \<le> length tx"
  using nextCloseLoop_bounded [where i = i and tx = tx and patEnd = patEnd and tag = tag] by simp

lemma sound_special_throw: "sound_special this (throwParseError this' k t)"
  by (simp add: sound_special_def throwParseError_def Let_def)

lemma parsePINode_sound:
  "lastIndex this \<le> length (xml_text this) \<Longrightarrow> sound_special this (parsePINode this tag)"
  by (simp add: parsePINode_def sound_special_throw) (simp add: sound_special_def)

lemma parseCommentNode_sound:
  "lastIndex this \<le> length (xml_text this) \<Longrightarrow> sound_special this (parseCommentNode this tag)"
  by (auto simp: parseCommentNode_def sound_special_throw split: sum.splits
      dest: nextCloseLoop_index) (auto simp: sound_special_def dest: nextCloseLoop_index)

lemma parseDTDNode_sound:
  "lastIndex this \<le> length (xml_text this) \<Longrightarrow> sound_special this (parseDTDNode this tag)"
  by (auto simp: parseDTDNode_def sound_special_throw Let_def split: sum.splits)
     (auto simp: sound_special_def dest: nextCloseLoop_index)

lemma parseCDATANode_sound:
  "lastIndex this \<le> length (xml_text this) \<Longrightarrow> sound_special this (parseCDATANode this tag)"
  by (auto simp: parseCDATANode_def sound_special_throw Let_def split: sum.splits option.splits)
     (auto simp: sound_special_def dest: nextCloseLoop_index)


lemma sound_step_throw: "errors this' = errors this \<Longrightarrow> sound_step this (Throw (throwParseError this' k t))"
  by (simp add: sound_step_def throwParseError_def Let_def)

lemma sound_step_throw': "sound_step this (Throw (throwParseError this' k t))"
  by (simp add: sound_step_def throwParseError_def Let_def)

lemma special_done_sound:
  "advanced this this1 \<Longrightarrow> sound_special this1 r \<Longrightarrow> sound_step this (special_done b r)"
  by (cases r) (auto simp: special_done_def sound_special_def sound_step_def advanced_def)

lemma advanced_index: "advanced this this1 \<Longrightarrow> lastIndex this1 \<le> length (xml_text this1)"
  by (simp add: advanced_def)

lemma advanced_sync: "advanced this this1 \<Longrightarrow> advanced this (sync root b this1)"
  by (simp add: advanced_def sync_def)

lemma special_tag_sound:
  assumes a: "advanced this this1"
  shows "sound_step this (special_tag cfg root b this1 tag)"
proof -
  from a have i: "lastIndex this1 \<le> length (xml_text this1)" by (rule advanced_index)
  have c: "sound_step this
     (case parseCDATANode this1 tag of
        Returned (payload, this2) \<Rightarrow>
          (case append_data cfg b payload of
             None \<Rightarrow> Throw (TypeError this2)
           | Some branch1 \<Rightarrow> Continue branch1 (sync root branch1 this2))
      | Thrown m this2 \<Rightarrow> Throw (Thrown m this2)
      | TypeError this2 \<Rightarrow> Throw (TypeError this2)
      | Unmodelled \<Rightarrow> Throw Unmodelled
      | Exhausted \<Rightarrow> Throw Exhausted)"
    using parseCDATANode_sound [OF i, of tag] a
    by (cases "parseCDATANode this1 tag")
       (auto simp: sound_special_def sound_step_def advanced_def sync_def split: option.splits)
  show ?thesis
    unfolding special_tag_def
    using special_done_sound [OF a parsePINode_sound [OF i]]
      special_done_sound [OF a parseCommentNode_sound [OF i]]
      special_done_sound [OF a parseDTDNode_sound [OF i]] c
    by (simp add: sound_step_throw')
qed

lemma attach_sound:
  "advanced this this1 \<Longrightarrow> nn \<noteq> ''__proto__'' \<Longrightarrow>
   sound_step this (attach cp cfg b root nn leaf this1)"
  by (simp add: attach_def Let_def sound_step_def advanced_def sync_def)

lemma patStandardTag_name: "patStandardTag tag = Some (closing, nm, raw) \<Longrightarrow> nm \<noteq> []"
  by (auto simp: patStandardTag_def Let_def split: if_splits)

lemma toLowerCase_Nil: "toLowerCase s = [] \<longleftrightarrow> s = []"
  by (simp add: toLowerCase_def)

lemma sublist_trans: "sublist xs ys \<Longrightarrow> sublist ys zs \<Longrightarrow> sublist xs zs"
proof -
  assume "sublist xs ys" and "sublist ys zs"
  then obtain p s p' s' where "ys = p @ xs @ s" and "zs = p' @ ys @ s'"
    unfolding sublist_def by blast
  then have "zs = (p' @ p) @ xs @ (s @ s')" by simp
  then show ?thesis unfolding sublist_def by blast
qed

lemma sublist_Cons_self: "sublist xs (x # xs)"
proof -
  have "x # xs = [x] @ xs @ []" by simp
  then show ?thesis unfolding sublist_def by blast
qed

lemma sublist_dropWhile: "sublist (dropWhile P xs) xs"
  by (rule suffix_imp_sublist) (rule suffix_dropWhile)

lemma sublist_tl: "sublist (tl xs) xs"
  by (cases xs) (simp_all add: sublist_Cons_self)

lemma patStandardTag_sublist:
  assumes "patStandardTag tag = Some (closing, nm, raw)"
  shows "sublist nm tag"
proof -
  let ?s = "skip_ws tag"
  let ?s1 = "if prefix ''/'' ?s then tl ?s else ?s"
  from assms have nm: "nm = takeWhile is_name_char ?s1"
    by (auto simp: patStandardTag_def Let_def split: if_splits)
  have "sublist nm ?s1" unfolding nm by (rule sublist_takeWhile)
  also have "sublist ?s1 ?s" by (simp add: sublist_tl)
  also have "sublist ?s tag" unfolding skip_ws_def by (rule sublist_dropWhile)
  finally show ?thesis .
qed

lemma patTag_scan_sublist: "patTag_scan s = Some (b, t, n) \<Longrightarrow> sublist t s"
proof (induction s arbitrary: b t n rule: patTag_scan.induct)
  case (1 s)
  from "1.prems" obtain lt r1 where d1: "dropWhile (\<lambda>c. c \<noteq> CHR ''<'') s = lt # r1"
    by (subst (asm) patTag_scan.simps) (auto split: list.splits)
  from "1.prems" d1 obtain gt r2 where d2: "dropWhile (\<lambda>c. c \<noteq> CHR ''>'') r1 = gt # r2"
    by (subst (asm) patTag_scan.simps) (auto split: list.splits)
  let ?tag = "takeWhile (\<lambda>c. c \<noteq> CHR ''>'') r1"
  have "sublist (lt # r1) s"
    using sublist_dropWhile [of "\<lambda>c. c \<noteq> CHR ''<''" s] d1 by simp
  moreover have "sublist r1 (lt # r1)" by (rule sublist_Cons_self)
  ultimately have r1: "sublist r1 s" by (rule sublist_trans [rotated])
  show ?case
  proof (cases "?tag = []")
    case True
    with "1.prems" d1 d2 obtain b' t' n' where
      r: "patTag_scan r1 = Some (b', t', n')" and t: "t = t'"
      by (subst (asm) patTag_scan.simps) (auto simp: Let_def split: prod.splits)
    from "1.IH" [OF d1 d2 refl refl True r] t have "sublist t r1" by simp
    then show ?thesis using r1 by (rule sublist_trans)
  next
    case False
    with "1.prems" d1 d2 have "t = ?tag"
      by (subst (asm) patTag_scan.simps) (auto simp: Let_def)
    then have "sublist t r1" by simp
    then show ?thesis using r1 by (rule sublist_trans)
  qed
qed

lemma patTag_exec_sublist: "patTag_exec tx i = Some (b, t, j) \<Longrightarrow> sublist t tx"
proof -
  assume "patTag_exec tx i = Some (b, t, j)"
  then obtain n where "patTag_scan (drop i tx) = Some (b, t, n)"
    by (auto simp: patTag_exec_def)
  then have "sublist t (drop i tx)" by (rule patTag_scan_sublist)
  moreover have "sublist (drop i tx) tx" by (rule sublist_drop)
  ultimately show ?thesis by (rule sublist_trans)
qed

lemma toLowerCase_proto: "toLowerCase ''__proto__'' = ''__proto__''"
  by code_simp

lemma proto_free_name:
  assumes "proto_free tx" and "sublist nm tx"
  shows "(if lc then toLowerCase nm else nm) \<noteq> ''__proto__''"
proof
  assume e: "(if lc then toLowerCase nm else nm) = ''__proto__''"
  then have "toLowerCase nm = ''__proto__''"
    by (cases lc) (auto simp: toLowerCase_proto)
  moreover from assms(2) have "sublist (toLowerCase nm) (toLowerCase tx)"
    unfolding toLowerCase_def by (rule map_mono_sublist)
  ultimately show False using assms(1) by (simp add: proto_free_def)
qed

lemma standard_tag_sound:
  assumes a: "advanced this this1" and pf: "proto_free (xml_text this)"
    and tg: "sublist tag (xml_text this)"
  shows "sound_step this (standard_tag cp cfg b name root this1 tag)"
proof (cases "patStandardTag tag")
  case None
  then show ?thesis by (simp add: standard_tag_def sound_step_throw')
next
  case (Some x)
  obtain closing nm raw where x: "x = (closing, nm, raw)" by (cases x)
  with Some have nm: "nm \<noteq> []" by (auto dest: patStandardTag_name)
  let ?nn = "if lowerCase cfg then toLowerCase nm else nm"
  from nm have nn: "?nn \<noteq> []" by (simp add: toLowerCase_Nil)
  from Some x have "sublist nm tag" by (auto dest: patStandardTag_sublist)
  then have "sublist nm (xml_text this)" using tg by (rule sublist_trans)
  with pf have np: "?nn \<noteq> ''__proto__''" by (rule proto_free_name)
  show ?thesis
  proof (cases closing)
    case True
    with Some x a show ?thesis
      by (simp add: standard_tag_def sound_step_throw') (simp add: sound_step_def advanced_def)
  next
    case False
    show ?thesis
    proof (cases "patSelfClosing raw")
      case True
      with Some x False attach_sound [OF a np] show ?thesis
        by (simp add: standard_tag_def Let_def)
    next
      case sc: False
      with Some x False np a nn show ?thesis
        by (simp add: standard_tag_def Let_def sound_step_def)
    qed
  qed
qed

lemma parse_step_sound:
  assumes i: "lastIndex this \<le> length (xml_text this)" and pf: "proto_free (xml_text this)"
  shows "sound_step this (parse_step cp cfg b name root this)"
proof (cases "patTag_exec (xml_text this) (lastIndex this)")
  case None
  then show ?thesis by (simp add: parse_step_def sound_step_def)
next
  case (Some x)
  obtain bef tag j where x: "x = (bef, tag, j)" by (cases x)
  with Some i have "lastIndex this < j \<and> j \<le> length (xml_text this)"
    by (auto dest: patTag_exec_bounds)
  then have a: "advanced this (this\<lparr>lastIndex := j\<rparr>)" by (simp add: advanced_def)
  from Some x have tg: "sublist tag (xml_text this)" by (auto dest: patTag_exec_sublist)
  show ?thesis
  proof (cases "if patNonSpace bef then append_data cfg b bef else Some b")
    case None
    with Some x show ?thesis by (simp add: parse_step_def Let_def sound_step_def)
  next
    case (Some b1)
    note a1 = advanced_sync [OF a, of root b1]
    from \<open>patTag_exec (xml_text this) (lastIndex this) = Some x\<close> x Some
      special_tag_sound [OF a1] standard_tag_sound [OF a1 pf tg]
    show ?thesis by (simp add: parse_step_def Let_def)
  qed
qed

lemma after_recursion_cases:
  "nn \<noteq> ''__proto__'' \<Longrightarrow>
   (\<exists>b' t'. after_recursion cp cfg b root nn leaf t = Break b' False t' \<and>
       xml_text t' = xml_text t \<and> errors t' = errors t \<and> lastIndex t' = lastIndex t) \<or>
   (\<exists>b' t'. after_recursion cp cfg b root nn leaf t = Continue b' t' \<and>
       xml_text t' = xml_text t \<and> errors t' = errors t \<and> lastIndex t' = lastIndex t)"
  by (simp add: after_recursion_def attach_def Let_def sync_def)

lemma parse_finish_sound:
  "xml_text t = xml_text this \<Longrightarrow> errors t = errors this \<Longrightarrow>
   (fc \<Longrightarrow> advanced this t) \<Longrightarrow>
   sound_outcome this (name \<noteq> None \<and> name \<noteq> Some []) (parse_finish cfg b name root fc t)"
  by (auto simp: parse_finish_def sound_outcome_def throwParseError_def Let_def advanced_def
      split: list.splits)

lemma advanced_trans: "advanced this t \<Longrightarrow> advanced t u \<Longrightarrow> advanced this u"
  by (simp add: advanced_def)

lemma sound_outcome_trans:
  "advanced this t \<Longrightarrow> sound_outcome t named r \<Longrightarrow> sound_outcome this named r"
  by (cases r) (auto simp: sound_outcome_def advanced_def)

lemma advanced_fuel:
  "advanced this t \<Longrightarrow> length (xml_text this) - lastIndex this < Suc n \<Longrightarrow>
   lastIndex t \<le> length (xml_text t) \<and> length (xml_text t) - lastIndex t < n"
  by (auto simp: advanced_def)

lemma XML_parse_sound:
  "lastIndex this \<le> length (xml_text this) \<Longrightarrow>
   length (xml_text this) - lastIndex this < n \<Longrightarrow> proto_free (xml_text this) \<Longrightarrow>
   sound_outcome this (name \<noteq> None \<and> name \<noteq> Some []) (XML_parse cp cfg n br name root this)"
proof (induction n arbitrary: br name root this)
  case 0
  then show ?case by simp
next
  case (Suc n)
  let ?named = "name \<noteq> None \<and> name \<noteq> Some []"
  have ss: "sound_step this (parse_step cp cfg br name root this)"
    using Suc.prems(1,3) by (rule parse_step_sound)
  show ?case
  proof (cases "parse_step cp cfg br name root this")
    case (Throw r)
    with ss show ?thesis
      by (cases r) (auto simp: sound_step_def sound_outcome_def)
  next
    case (Break b fc t)
    with ss have "xml_text t = xml_text this" "errors t = errors this" "fc \<Longrightarrow> advanced this t"
      by (auto simp: sound_step_def)
    then have "sound_outcome this ?named (parse_finish cfg b name root fc t)"
      by (rule parse_finish_sound)
    with Break show ?thesis by (simp add: leave_def)
  next
    case (Continue b t)
    with ss have a: "advanced this t" by (simp add: sound_step_def)
    then have tx: "xml_text t = xml_text this" by (simp add: advanced_def)
    from advanced_fuel [OF a Suc.prems(2)] Suc.prems(3) tx
    have "sound_outcome t ?named (XML_parse cp cfg n b name root t)"
      by (intro Suc.IH) simp_all
    with a have "sound_outcome this ?named (XML_parse cp cfg n b name root t)"
      by (rule sound_outcome_trans)
    with Continue show ?thesis by simp
  next
    case (Recurse b nn leaf t)
    with ss have a: "advanced this t" and nn: "nn \<noteq> []" and np: "nn \<noteq> ''__proto__''"
      by (simp_all add: sound_step_def)
    from a have tx: "xml_text t = xml_text this" by (simp add: advanced_def)
    from advanced_fuel [OF a Suc.prems(2)]
    have f: "lastIndex t \<le> length (xml_text t)" "length (xml_text t) - lastIndex t < n"
      by simp_all
    from Suc.prems(3) tx have pft: "proto_free (xml_text t)" by simp
    have inner: "sound_outcome t (Some nn \<noteq> None \<and> Some nn \<noteq> Some [])
        (XML_parse cp cfg n leaf (Some nn) False t)"
      using f pft by (rule Suc.IH)
    show ?thesis
    proof (cases "XML_parse cp cfg n leaf (Some nn) False t")
      case (Returned x)
      obtain leaf' t' where x: "x = (leaf', t')" by (cases x)
      from inner Returned x nn have a': "advanced t t'"
        by (simp add: sound_outcome_def)
      with a have a'': "advanced this t'" by (rule advanced_trans)
      from after_recursion_cases [OF np, of cp cfg b root leaf' t']
      show ?thesis
      proof
        assume "\<exists>b' u. after_recursion cp cfg b root nn leaf' t' = Break b' False u \<and>
          xml_text u = xml_text t' \<and> errors u = errors t' \<and> lastIndex u = lastIndex t'"
        then obtain b' u where ar: "after_recursion cp cfg b root nn leaf' t' = Break b' False u"
          and u: "xml_text u = xml_text t'" "errors u = errors t'" by blast
        from a'' u have "xml_text u = xml_text this" "errors u = errors this"
          by (simp_all add: advanced_def)
        then have "sound_outcome this ?named (parse_finish cfg b' name root False u)"
          by (rule parse_finish_sound) simp
        with Recurse Returned x ar show ?thesis by (simp add: leave_def)
      next
        assume "\<exists>b' u. after_recursion cp cfg b root nn leaf' t' = Continue b' u \<and>
          xml_text u = xml_text t' \<and> errors u = errors t' \<and> lastIndex u = lastIndex t'"
        then obtain b' u where ar: "after_recursion cp cfg b root nn leaf' t' = Continue b' u"
          and u: "xml_text u = xml_text t'" "errors u = errors t'" "lastIndex u = lastIndex t'"
          by blast
        from a'' u have au: "advanced this u" by (simp add: advanced_def)
        from a' f u have "lastIndex u \<le> length (xml_text u)"
          "length (xml_text u) - lastIndex u < n"
          by (auto simp: advanced_def)
        moreover from au Suc.prems(3) have "proto_free (xml_text u)" by (simp add: advanced_def)
        ultimately have "sound_outcome u ?named (XML_parse cp cfg n b' name root u)"
          by (rule Suc.IH)
        with au have "sound_outcome this ?named (XML_parse cp cfg n b' name root u)"
          by (rule sound_outcome_trans)
        with Recurse Returned x ar show ?thesis by simp
      qed
    next
      case (Thrown m s)
      with inner Recurse show ?thesis by (simp add: sound_outcome_def)
    next
      case (TypeError s)
      with inner Recurse a show ?thesis by (simp add: sound_outcome_def advanced_def)
    next
      case Unmodelled
      with inner show ?thesis by (simp add: sound_outcome_def)
    next
      case Exhausted
      with inner show ?thesis by (simp add: sound_outcome_def)
    qed
  qed
qed

lemma proto_free_neq: "proto_free k \<Longrightarrow> k \<noteq> ''__proto__'' \<and> toLowerCase k \<noteq> ''__proto__''"
proof -
  assume a: "proto_free k"
  have "toLowerCase k \<noteq> ''__proto__''"
  proof
    assume "toLowerCase k = ''__proto__''"
    then have "sublist ''__proto__'' (toLowerCase k)" by simp
    with a show False by (simp add: proto_free_def)
  qed
  moreover have "k \<noteq> ''__proto__''"
  proof
    assume "k = ''__proto__''"
    then have "toLowerCase k = ''__proto__''" by (simp add: toLowerCase_proto)
    with \<open>toLowerCase k \<noteq> ''__proto__''\<close> show False by simp
  qed
  ultimately show ?thesis by simp
qed

lemma XML_constructor_sound:
  assumes "proto_free tx" and "proto_free (attribsKey opts)" and "proto_free (dataKey opts)"
  shows "(case XML_constructor cp opts tx of
      Exhausted \<Rightarrow> False
    | Unmodelled \<Rightarrow> False
    | Thrown m s \<Rightarrow> m = getLastError s \<and> errors s \<noteq> []
    | TypeError t \<Rightarrow> errors t = []
    | Returned t \<Rightarrow> errors t = [])"
proof -
  let ?cfg = "if lowerCase opts
              then opts\<lparr>attribsKey := toLowerCase (attribsKey opts),
                        dataKey := toLowerCase (dataKey opts)\<rparr>
              else opts"
  let ?t0 = "\<lparr> xml_text = tx, lastIndex = 0, errors = [], piNodeList = [],
                 dtdNodeList = [], tree = Element [], documentNodeName = Some [] \<rparr>"
  have "sound_outcome ?t0 False (XML_parse cp ?cfg (Suc (length tx)) [] None True ?t0)"
    using XML_parse_sound [where this = ?t0 and n = "Suc (length tx)" and name = None
        and cp = cp and cfg = ?cfg and br = "[]" and root = True] assms(1)
    by simp
  moreover have "attribsKey ?cfg \<noteq> ''__proto__''" "dataKey ?cfg \<noteq> ''__proto__''"
    using proto_free_neq [OF assms(2)] proto_free_neq [OF assms(3)] by simp_all
  ultimately show ?thesis
    by (cases "XML_parse cp ?cfg (Suc (length tx)) [] None True ?t0")
       (auto simp: XML_constructor_def Let_def sound_outcome_def)
qed

text \<open>
  C6, as stated: on the failing input \<open><a>\<close> the function \<open>parse\<close> would return the
  formatted error. It does not return: \<open>throwParseError\<close> throws, and nothing between
  it and the caller of \<open>parse\<close> catches.
\<close>

theorem parse_returns_error_counterexample:
  "parse Xml_js ''<a>'' default_config \<noteq>
     Returned (Text ''Parse Error: Missing closing tag (expected </a>) on line 1: <a>'') \<and>
   parse Xml_js ''<a>'' default_config =
     Thrown ''Parse Error: Missing closing tag (expected </a>) on line 1: <a>''
       ((instance_at ''<a>'' 0)\<lparr>errors :=
          [\<lparr> err_type = ''Parse'', err_key = ''Missing closing tag (expected </a>)'',
             err_text = ''<a>'', err_line = 1 \<rparr>]\<rparr>)"
  by code_simp

text \<open>
  C6, amended: for every text and every options in which the name \<open>__proto__\<close> occurs
  nowhere (in no letter case, neither in the text nor in \<open>attribsKey\<close> or \<open>dataKey\<close>),
  \<open>parse\<close> ends in exactly one of three ways, and the model never runs out of fuel:
  it throws an \<open>Error\<close> whose message is the formatted last error of the instance, which
  then holds at least one error; or it throws a \<open>TypeError\<close> from a string conversion,
  and then the instance holds no error at all; or it returns the tree of an instance
  without errors. It never returns the error string.
\<close>

theorem parse_throws_or_returns_tree:
  assumes "proto_free tx" and "proto_free (attribsKey opts)" and "proto_free (dataKey opts)"
  shows
  "(\<exists>this. parse cp tx opts = Thrown (getLastError this) this \<and> error this \<noteq> 0) \<or>
   (\<exists>this. parse cp tx opts = TypeError this \<and> error this = 0) \<or>
   (\<exists>this. XML_constructor cp opts tx = Returned this \<and> error this = 0 \<and>
      parse cp tx opts = Returned (getTree this))"
  using XML_constructor_sound [OF assms, of cp]
  by (cases "XML_constructor cp opts tx") (auto simp: parse_def error_def)

theorem parse_throws_or_returns_tree_witness:
  "proto_free ''<a>'' \<and> proto_free (attribsKey default_config) \<and>
   proto_free (dataKey default_config) \<and>
   ((\<exists>this. parse Xml_js ''<a>'' default_config = Thrown (getLastError this) this \<and>
      error this \<noteq> 0) \<or>
    (\<exists>this. parse Xml_js ''<a>'' default_config = TypeError this \<and> error this = 0) \<or>
    (\<exists>this. XML_constructor Xml_js default_config ''<a>'' = Returned this \<and> error this = 0 \<and>
      parse Xml_js ''<a>'' default_config = Returned (getTree this)))"
proof -
  have h: "proto_free ''<a>''" "proto_free (attribsKey default_config)"
    "proto_free (dataKey default_config)"
    by code_simp+
  from h parse_throws_or_returns_tree [OF h, of Xml_js] show ?thesis by blast
qed

text \<open>
  The second case happens: character data appended to a \<open>_Data\<close> element that owns a
  \<open>toString\<close> child cannot be converted to a string, and no parse error is recorded.
\<close>

lemma parse_type_error_example:
  "parse Xml_js ''<a><_Data><toString/></_Data>t</a>'' default_config =
     TypeError (instance_at ''<a><_Data><toString/></_Data>t</a>'' 34)"
  by code_simp

section \<open>Unclosed special tags\<close>

lemma takeWhile_upto: "x \<notin> set a \<Longrightarrow> takeWhile (\<lambda>c. c \<noteq> x) (a @ x # r) = a"
  by (induction a) auto

lemma dropWhile_upto: "x \<notin> set a \<Longrightarrow> dropWhile (\<lambda>c. c \<noteq> x) (a @ x # r) = x # r"
  by (induction a) auto

lemma patTag_scan_tag:
  assumes "CHR ''<'' \<notin> set bef" and "tag \<noteq> []" and "CHR ''>'' \<notin> set tag"
  shows "patTag_scan (bef @ CHR ''<'' # tag @ CHR ''>'' # rest) =
           Some (bef, tag, length bef + length tag + 2)"
  using assms
  by (subst patTag_scan.simps) (simp add: takeWhile_upto dropWhile_upto Let_def)

lemma patTag_exec_tag:
  assumes "CHR ''<'' \<notin> set bef" and "tag \<noteq> []" and "CHR ''>'' \<notin> set tag"
  shows "patTag_exec (pre @ bef @ CHR ''<'' # tag @ CHR ''>'' # rest) (length pre) =
           Some (bef, tag, length pre + length bef + length tag + 2)"
  using patTag_scan_tag [OF assms, of rest]
  by (simp add: patTag_exec_def)

lemma split_at_gt:
  "CHR ''>'' \<in> set c \<Longrightarrow>
     \<exists>rest. c = takeWhile (\<lambda>x. x \<noteq> CHR ''>'') c @ CHR ''>'' # rest"
  using drop_dropWhile_split [of "CHR ''>''" c] by blast

lemma parse_first_step_throw:
  assumes "tx \<noteq> []" and "proto_free (attribsKey opts)" and "proto_free (dataKey opts)"
    and "parse_step cp (if lowerCase opts
              then opts\<lparr>attribsKey := toLowerCase (attribsKey opts),
                        dataKey := toLowerCase (dataKey opts)\<rparr>
              else opts) [] None True (instance_at tx 0) = Throw (Thrown m s)"
  shows "parse cp tx opts = Thrown m s"
proof -
  let ?cfg = "if lowerCase opts
              then opts\<lparr>attribsKey := toLowerCase (attribsKey opts),
                        dataKey := toLowerCase (dataKey opts)\<rparr>
              else opts"
  have k: "attribsKey ?cfg \<noteq> ''__proto__''" "dataKey ?cfg \<noteq> ''__proto__''"
    using proto_free_neq [OF assms(2)] proto_free_neq [OF assms(3)] by simp_all
  have "XML_parse cp ?cfg (Suc (length tx)) [] None True (instance_at tx 0) = Thrown m s"
    using assms(4) by simp
  then have "XML_constructor cp opts tx = Thrown m s"
    using assms(1) k unfolding XML_constructor_def Let_def instance_at_def
    by simp
  then show ?thesis by (simp add: parse_def)
qed

lemma not_sublist_drop: "\<not> sublist p tx \<Longrightarrow> \<not> sublist p (drop i tx)"
proof
  assume a: "\<not> sublist p tx" and b: "sublist p (drop i tx)"
  have "sublist (drop i tx) tx" by (rule sublist_drop)
  with b have "sublist p tx" by (rule sublist_trans)
  with a show False by simp
qed

lemma suffix_tag_sublist:
  assumes "suffix t tag"
  shows "sublist (t @ ''>'') (CHR ''<'' # tag @ CHR ''>'' # rest)"
proof -
  from assms obtain u where "tag = u @ t" by (auto simp: suffix_def)
  then have "CHR ''<'' # tag @ CHR ''>'' # rest = (CHR ''<'' # u) @ (t @ ''>'') @ rest" by simp
  then show ?thesis unfolding sublist_def by blast
qed

lemma instance_at_step:
  "sync True [] ((instance_at tx 0)\<lparr>lastIndex := i\<rparr>) = instance_at tx i"
  by (simp add: sync_def instance_at_def)

lemma parse_comment_unclosed:
  assumes gt: "CHR ''>'' \<in> set c" and ns: "\<not> sublist ''-->'' (''<!--'' @ c)"
    and ka: "proto_free (attribsKey opts)" and kd: "proto_free (dataKey opts)"
  shows "\<exists>tag'. prefix (''!--'' @ takeWhile (\<lambda>x. x \<noteq> CHR ''>'') c) tag' \<and>
           parse cp (''<!--'' @ c) opts =
             raises (instance_at (''<!--'' @ c) (5 + length (takeWhile (\<lambda>x. x \<noteq> CHR ''>'') c)))
               ''Unclosed comment tag'' tag'"
proof -
  let ?t0 = "takeWhile (\<lambda>x. x \<noteq> CHR ''>'') c"
  let ?tag = "''!--'' @ ?t0"
  let ?tx = "''<!--'' @ c"
  let ?i = "5 + length ?t0"
  let ?cfg = "if lowerCase opts
              then opts\<lparr>attribsKey := toLowerCase (attribsKey opts),
                        dataKey := toLowerCase (dataKey opts)\<rparr>
              else opts"
  from split_at_gt [OF gt] obtain rest where c: "c = ?t0 @ CHR ''>'' # rest" by blast
  have t0: "CHR ''>'' \<notin> set ?t0" by (auto dest: set_takeWhileD)
  have tx: "?tx = [] @ [] @ CHR ''<'' # ?tag @ CHR ''>'' # rest"
    using c by simp
  have "patTag_exec ([] @ [] @ CHR ''<'' # ?tag @ CHR ''>'' # rest) (length ([] :: string)) =
          Some ([], ?tag, length ([] :: string) + length ([] :: string) + length ?tag + 2)"
    by (rule patTag_exec_tag) (use t0 in auto)
  then have ex: "patTag_exec ?tx 0 = Some ([], ?tag, ?i)"
    unfolding tx [symmetric] by simp
  have ne: "\<not> patEndComment ?tag"
  proof
    assume "patEndComment ?tag"
    then have "suffix ''--'' ?tag" by (simp add: patEndComment_def)
    from suffix_tag_sublist [OF this, of rest] have "sublist ''-->'' ?tx"
      using c by simp
    with ns show False by simp
  qed
  have nd: "\<not> sublist ''-->'' (drop (lastIndex (instance_at ?tx ?i)) (xml_text (instance_at ?tx ?i)))"
    using not_sublist_drop [OF ns] by (simp add: instance_at_def)
  from parseCommentNode_unclosed [OF ne nd]
  obtain tag' where p: "prefix ?tag tag'"
    and r: "parseCommentNode (instance_at ?tx ?i) ?tag =
              raises (instance_at ?tx ?i) ''Unclosed comment tag'' tag'"
    by blast
  obtain m s where ms: "(raises (instance_at ?tx ?i) ''Unclosed comment tag'' tag'
       :: (string \<times> xml) outcome) = Thrown m s"
    and ms': "(raises (instance_at ?tx ?i) ''Unclosed comment tag'' tag' :: node outcome) = Thrown m s"
    by (simp add: raises_def Let_def)
  have sp: "patSpecialTag ?tag" "\<not> patPITag ?tag" "patCommentTag ?tag"
    by (simp_all add: patSpecialTag_def patPITag_def patCommentTag_def skip_ws_def is_space_def)
  have "parse_step cp ?cfg [] None True (instance_at ?tx 0) = Throw (Thrown m s)"
    using ex sp r ms
    by (simp add: parse_step_def Let_def patNonSpace_def instance_at_step special_tag_def
        special_done_def instance_at_def [of _ 0, THEN arg_cong [where f = xml_text]]
        instance_at_def [of _ 0, THEN arg_cong [where f = lastIndex]])
  from parse_first_step_throw [OF _ ka kd this] have "parse cp ?tx opts = Thrown m s" by simp
  with ms' p show ?thesis by auto
qed

lemma parse_cdata_unclosed:
  assumes gt: "CHR ''>'' \<in> set c" and ns: "\<not> sublist '']]>'' (''<![CDATA['' @ c)"
    and ka: "proto_free (attribsKey opts)" and kd: "proto_free (dataKey opts)"
  shows "\<exists>tag'. prefix (''![CDATA['' @ takeWhile (\<lambda>x. x \<noteq> CHR ''>'') c) tag' \<and>
           parse cp (''<![CDATA['' @ c) opts =
             raises (instance_at (''<![CDATA['' @ c) (10 + length (takeWhile (\<lambda>x. x \<noteq> CHR ''>'') c)))
               ''Unclosed CDATA tag'' tag'"
proof -
  let ?t0 = "takeWhile (\<lambda>x. x \<noteq> CHR ''>'') c"
  let ?tag = "''![CDATA['' @ ?t0"
  let ?tx = "''<![CDATA['' @ c"
  let ?i = "10 + length ?t0"
  let ?cfg = "if lowerCase opts
              then opts\<lparr>attribsKey := toLowerCase (attribsKey opts),
                        dataKey := toLowerCase (dataKey opts)\<rparr>
              else opts"
  from split_at_gt [OF gt] obtain rest where c: "c = ?t0 @ CHR ''>'' # rest" by blast
  have t0: "CHR ''>'' \<notin> set ?t0" by (auto dest: set_takeWhileD)
  have tx: "?tx = [] @ [] @ CHR ''<'' # ?tag @ CHR ''>'' # rest"
    using c by simp
  have "patTag_exec ([] @ [] @ CHR ''<'' # ?tag @ CHR ''>'' # rest) (length ([] :: string)) =
          Some ([], ?tag, length ([] :: string) + length ([] :: string) + length ?tag + 2)"
    by (rule patTag_exec_tag) (use t0 in auto)
  then have ex: "patTag_exec ?tx 0 = Some ([], ?tag, ?i)"
    unfolding tx [symmetric] by simp
  have ne: "\<not> patEndCDATA ?tag"
  proof
    assume "patEndCDATA ?tag"
    then have "suffix '']]'' ?tag" by (simp add: patEndCDATA_def)
    from suffix_tag_sublist [OF this, of rest] have "sublist '']]>'' ?tx"
      using c by simp
    with ns show False by simp
  qed
  have nd: "\<not> sublist '']]>'' (drop (lastIndex (instance_at ?tx ?i)) (xml_text (instance_at ?tx ?i)))"
    using not_sublist_drop [OF ns] by (simp add: instance_at_def)
  from parseCDATANode_unclosed [OF ne nd]
  obtain tag' where p: "prefix ?tag tag'"
    and r: "parseCDATANode (instance_at ?tx ?i) ?tag =
              raises (instance_at ?tx ?i) ''Unclosed CDATA tag'' tag'"
    by blast
  obtain m s where ms: "(raises (instance_at ?tx ?i) ''Unclosed CDATA tag'' tag'
       :: (string \<times> xml) outcome) = Thrown m s"
    and ms': "(raises (instance_at ?tx ?i) ''Unclosed CDATA tag'' tag' :: node outcome) = Thrown m s"
    by (simp add: raises_def Let_def)
  have sp: "patSpecialTag ?tag" "\<not> patPITag ?tag" "\<not> patCommentTag ?tag" "\<not> patDTDTag ?tag"
    "patCDATATag ?tag"
    by (simp_all add: patSpecialTag_def patPITag_def patCommentTag_def patDTDTag_def
        patCDATATag_def skip_ws_def is_space_def)
  have "parse_step cp ?cfg [] None True (instance_at ?tx 0) = Throw (Thrown m s)"
    using ex sp r ms
    by (simp add: parse_step_def Let_def patNonSpace_def instance_at_step special_tag_def
        special_done_def instance_at_def [of _ 0, THEN arg_cong [where f = xml_text]]
        instance_at_def [of _ 0, THEN arg_cong [where f = lastIndex]])
  from parse_first_step_throw [OF _ ka kd this] have "parse cp ?tx opts = Thrown m s" by simp
  with ms' p show ?thesis by auto
qed

lemma pi_name_not_space: "is_pi_name_char x \<Longrightarrow> \<not> is_space x"
  by (auto simp: is_pi_name_char_def is_word_def is_space_def)

lemma pi_name_not_gt: "is_pi_name_char x \<Longrightarrow> x \<noteq> CHR ''>''"
  by (auto simp: is_pi_name_char_def is_word_def)

lemma doctype_head_inline:
  assumes "nm \<noteq> []" and "list_all is_pi_name_char nm"
  shows "doctype_head (''!DOCTYPE '' @ nm @ '' ['' @ t) = Some (''['' @ t)"
proof -
  from assms obtain n ns where nm: "nm = n # ns" by (cases nm) auto
  with assms(2) have n: "\<not> is_space n" by (simp add: pi_name_not_space)
  have a: "dropWhile is_pi_name_char (nm @ '' ['' @ t) = '' ['' @ t"
    using assms(2) by (simp add: list_all_iff is_pi_name_char_def is_word_def)
  have b: "takeWhile is_pi_name_char (nm @ '' ['' @ t) = nm"
    using assms(2) by (simp add: list_all_iff is_pi_name_char_def is_word_def)
  have c: "skip_ws ('' '' @ nm @ '' ['' @ t) = nm @ '' ['' @ t"
    using n nm by (simp add: skip_ws_def is_space_def)
  have d: "skip_ws ('' ['' @ t) = ''['' @ t"
    by (simp add: skip_ws_def is_space_def)
  have e: "skip_ws (''!DOCTYPE '' @ nm @ '' ['' @ t) = ''!DOCTYPE '' @ nm @ '' ['' @ t"
    by (simp add: skip_ws_def is_space_def)
  have f: "drop 8 (''!DOCTYPE '' @ nm @ '' ['' @ t) = '' '' @ nm @ '' ['' @ t" by simp
  show ?thesis
    unfolding doctype_head_def e Let_def f c a b d
    using assms(1) nm by simp
qed

lemma parse_dtd_unclosed:
  assumes nm: "nm \<noteq> []" "list_all is_pi_name_char nm"
    and gt: "CHR ''>'' \<in> set c" and ns: "\<not> sublist '']>'' (''<!DOCTYPE '' @ nm @ '' ['' @ c)"
    and ka: "proto_free (attribsKey opts)" and kd: "proto_free (dataKey opts)"
  shows "\<exists>tag'. prefix (''!DOCTYPE '' @ nm @ '' ['' @ takeWhile (\<lambda>x. x \<noteq> CHR ''>'') c) tag' \<and>
           parse cp (''<!DOCTYPE '' @ nm @ '' ['' @ c) opts =
             raises (instance_at (''<!DOCTYPE '' @ nm @ '' ['' @ c)
                 (length nm + 13 + length (takeWhile (\<lambda>x. x \<noteq> CHR ''>'') c)))
               ''Unclosed DTD tag'' tag'"
proof -
  let ?t0 = "takeWhile (\<lambda>x. x \<noteq> CHR ''>'') c"
  let ?tag = "''!DOCTYPE '' @ nm @ '' ['' @ ?t0"
  let ?tx = "''<!DOCTYPE '' @ nm @ '' ['' @ c"
  let ?i = "length nm + 13 + length ?t0"
  let ?cfg = "if lowerCase opts
              then opts\<lparr>attribsKey := toLowerCase (attribsKey opts),
                        dataKey := toLowerCase (dataKey opts)\<rparr>
              else opts"
  from split_at_gt [OF gt] obtain rest where c: "c = ?t0 @ CHR ''>'' # rest" by blast
  have t0: "CHR ''>'' \<notin> set ?t0" by (auto dest: set_takeWhileD)
  have nmgt: "CHR ''>'' \<notin> set nm"
    using nm(2) by (auto simp: list_all_iff dest: pi_name_not_gt)
  have tx: "?tx = [] @ [] @ CHR ''<'' # ?tag @ CHR ''>'' # rest"
    using c by simp
  have "patTag_exec ([] @ [] @ CHR ''<'' # ?tag @ CHR ''>'' # rest) (length ([] :: string)) =
          Some ([], ?tag, length ([] :: string) + length ([] :: string) + length ?tag + 2)"
    by (rule patTag_exec_tag) (use t0 nmgt in auto)
  then have ex: "patTag_exec ?tx 0 = Some ([], ?tag, ?i)"
    unfolding tx [symmetric] by simp
  have ne: "\<not> patEndDTD ?tag"
  proof
    assume "patEndDTD ?tag"
    then have "suffix '']'' ?tag" by (simp add: patEndDTD_def)
    from suffix_tag_sublist [OF this, of rest] have "sublist '']>'' ?tx"
      using c by simp
    with ns show False by simp
  qed
  have nd: "\<not> sublist '']>'' (drop (lastIndex (instance_at ?tx ?i)) (xml_text (instance_at ?tx ?i)))"
    using not_sublist_drop [OF ns] by (simp add: instance_at_def)
  have dh: "doctype_head ?tag = Some (''['' @ ?t0)" by (rule doctype_head_inline [OF nm])
  have ext: "\<not> patExternalDTDNode ?tag" "patInlineDTDNode ?tag"
    unfolding patExternalDTDNode_def patInlineDTDNode_def dh by simp_all
  from parseDTDNode_unclosed [OF ext ne nd]
  obtain tag' where p: "prefix ?tag tag'"
    and r: "parseDTDNode (instance_at ?tx ?i) ?tag =
              raises (instance_at ?tx ?i) ''Unclosed DTD tag'' tag'"
    by blast
  obtain m s where ms: "(raises (instance_at ?tx ?i) ''Unclosed DTD tag'' tag'
       :: (string \<times> xml) outcome) = Thrown m s"
    and ms': "(raises (instance_at ?tx ?i) ''Unclosed DTD tag'' tag' :: node outcome) = Thrown m s"
    by (simp add: raises_def Let_def)
  have sp: "patSpecialTag ?tag" "\<not> patPITag ?tag" "\<not> patCommentTag ?tag" "patDTDTag ?tag"
    by (simp_all add: patSpecialTag_def patPITag_def patCommentTag_def patDTDTag_def
        skip_ws_def is_space_def)
  have "parse_step cp ?cfg [] None True (instance_at ?tx 0) = Throw (Thrown m s)"
    using ex sp r ms
    by (simp add: parse_step_def Let_def patNonSpace_def instance_at_step special_tag_def
        special_done_def instance_at_def [of _ 0, THEN arg_cong [where f = xml_text]]
        instance_at_def [of _ 0, THEN arg_cong [where f = lastIndex]])
  from parse_first_step_throw [OF _ ka kd this] have "parse cp ?tx opts = Thrown m s" by simp
  with ms' p show ?thesis by auto
qed

lemma patTag_scan_no_gt: "CHR ''>'' \<notin> set s \<Longrightarrow> patTag_scan s = None"
proof -
  assume a: "CHR ''>'' \<notin> set s"
  show ?thesis
  proof (cases "dropWhile (\<lambda>c. c \<noteq> CHR ''<'') s")
    case Nil
    show ?thesis by (subst patTag_scan.simps) (simp only: Nil list.case)
  next
    case (Cons lt r1)
    have "set r1 \<subseteq> set s"
      by (metis Cons set_dropWhileD set_subset_Cons subsetI subset_trans list.set_intros(2))
    with a have "CHR ''>'' \<notin> set r1" by auto
    then have "dropWhile (\<lambda>c. c \<noteq> CHR ''>'') r1 = []" by (induction r1) auto
    with Cons show ?thesis by (subst patTag_scan.simps) (simp only: list.case)
  qed
qed

lemma parse_no_tag:
  assumes "CHR ''>'' \<notin> set tx"
    and ka: "proto_free (attribsKey opts)" and kd: "proto_free (dataKey opts)"
  shows "parse cp tx opts = Returned (Element [])"
proof (cases "tx = []")
  case True
  then show ?thesis by (simp add: parse_def XML_constructor_def Let_def error_def getTree_def)
next
  case False
  let ?cfg = "if lowerCase opts
              then opts\<lparr>attribsKey := toLowerCase (attribsKey opts),
                        dataKey := toLowerCase (dataKey opts)\<rparr>
              else opts"
  have k: "attribsKey ?cfg \<noteq> ''__proto__''" "dataKey ?cfg \<noteq> ''__proto__''"
    using proto_free_neq [OF ka] proto_free_neq [OF kd] by simp_all
  have "patTag_exec tx 0 = None"
    using patTag_scan_no_gt [OF assms(1)] by (simp add: patTag_exec_def)
  then have "parse_step cp ?cfg [] None True (instance_at tx 0) = Break [] False (instance_at tx 0)"
    by (simp add: parse_step_def instance_at_def)
  then have "XML_parse cp ?cfg (Suc (length tx)) [] None True (instance_at tx 0) =
     Returned ([], (instance_at tx 0)\<lparr>documentNodeName := None\<rparr>)"
    by (simp add: leave_def parse_finish_def obj_get_def obj_delete_def Let_def numKeys_def instance_at_def
        split: option.splits)
  then have "XML_constructor cp opts tx = Returned ((instance_at tx 0)\<lparr>documentNodeName := None\<rparr>)"
    using False k unfolding XML_constructor_def Let_def instance_at_def by simp
  then show ?thesis by (simp add: parse_def error_def getTree_def instance_at_def)
qed

text \<open>
  C8. The scan of a comment, of a CDATA section or of an inline DTD is a total function:
  each turn moves the index forward, the index it returns stays inside the text, and the
  collected tag grows by no more than the text it passed. When the text from
  \<open>lastIndex\<close> on holds no terminator (\<open>-->\<close>, \<open>]]>\<close> or \<open>]>\<close>) and the tag scanned so
  far does not end in one, the scan runs until no \<open>>\<close> is left in the text, and then
  the error of its kind is recorded in the instance and thrown with its formatted message,
  carrying the tag collected so far. The same holds for \<open>parse\<close> on a text that starts
  with the opening of a comment, of a CDATA section or of an inline DTD, has a \<open>>\<close>
  behind it and the terminator nowhere.
\<close>

theorem unclosed_special_tag_raises:
  "(\<not> patEndComment tagc \<and> \<not> sublist ''-->'' (drop (lastIndex thisc) (xml_text thisc)) \<longrightarrow>
      (\<exists>tag'. prefix tagc tag' \<and>
         CHR ''>'' \<notin> set (drop (lastIndex thisc + (length tag' - length tagc)) (xml_text thisc)) \<and>
         parseCommentNode thisc tagc = raises thisc ''Unclosed comment tag'' tag')) \<and>
   (\<not> patEndCDATA tagd \<and> \<not> sublist '']]>'' (drop (lastIndex thisd) (xml_text thisd)) \<longrightarrow>
      (\<exists>tag'. prefix tagd tag' \<and>
         CHR ''>'' \<notin> set (drop (lastIndex thisd + (length tag' - length tagd)) (xml_text thisd)) \<and>
         parseCDATANode thisd tagd = raises thisd ''Unclosed CDATA tag'' tag')) \<and>
   (\<not> patExternalDTDNode tage \<and> patInlineDTDNode tage \<and> \<not> patEndDTD tage \<and>
      \<not> sublist '']>'' (drop (lastIndex thise) (xml_text thise)) \<longrightarrow>
      (\<exists>tag'. prefix tage tag' \<and>
         CHR ''>'' \<notin> set (drop (lastIndex thise + (length tag' - length tage)) (xml_text thise)) \<and>
         parseDTDNode thise tage = raises thise ''Unclosed DTD tag'' tag')) \<and>
   (i \<le> length tx \<longrightarrow>
      (case nextCloseLoop patEnd tx i tag of
         Inl tag' \<Rightarrow> length tag' \<le> length tag + (length tx - i)
       | Inr (tag', j) \<Rightarrow> length tag' = length tag + (j - i) \<and> i \<le> j \<and> j \<le> length tx)) \<and>
   (proto_free (attribsKey opts) \<and> proto_free (dataKey opts) \<longrightarrow>
      (CHR ''>'' \<in> set cc \<and> \<not> sublist ''-->'' (''<!--'' @ cc) \<longrightarrow>
         (\<exists>tag'. prefix (''!--'' @ takeWhile (\<lambda>x. x \<noteq> CHR ''>'') cc) tag' \<and>
            parse cp (''<!--'' @ cc) opts =
              raises (instance_at (''<!--'' @ cc) (5 + length (takeWhile (\<lambda>x. x \<noteq> CHR ''>'') cc)))
                ''Unclosed comment tag'' tag')) \<and>
      (CHR ''>'' \<in> set cd \<and> \<not> sublist '']]>'' (''<![CDATA['' @ cd) \<longrightarrow>
         (\<exists>tag'. prefix (''![CDATA['' @ takeWhile (\<lambda>x. x \<noteq> CHR ''>'') cd) tag' \<and>
            parse cp (''<![CDATA['' @ cd) opts =
              raises (instance_at (''<![CDATA['' @ cd)
                  (10 + length (takeWhile (\<lambda>x. x \<noteq> CHR ''>'') cd)))
                ''Unclosed CDATA tag'' tag')) \<and>
      (nm \<noteq> [] \<and> list_all is_pi_name_char nm \<and> CHR ''>'' \<in> set ce \<and>
         \<not> sublist '']>'' (''<!DOCTYPE '' @ nm @ '' ['' @ ce) \<longrightarrow>
         (\<exists>tag'. prefix (''!DOCTYPE '' @ nm @ '' ['' @ takeWhile (\<lambda>x. x \<noteq> CHR ''>'') ce) tag' \<and>
            parse cp (''<!DOCTYPE '' @ nm @ '' ['' @ ce) opts =
              raises (instance_at (''<!DOCTYPE '' @ nm @ '' ['' @ ce)
                  (length nm + 13 + length (takeWhile (\<lambda>x. x \<noteq> CHR ''>'') ce)))
                ''Unclosed DTD tag'' tag')))"
proof (intro conjI impI)
  assume "\<not> patEndComment tagc \<and> \<not> sublist ''-->'' (drop (lastIndex thisc) (xml_text thisc))"
  then show "\<exists>tag'. prefix tagc tag' \<and>
         CHR ''>'' \<notin> set (drop (lastIndex thisc + (length tag' - length tagc)) (xml_text thisc)) \<and>
         parseCommentNode thisc tagc = raises thisc ''Unclosed comment tag'' tag'"
    using parseCommentNode_unclosed [of tagc thisc] by blast
next
  assume "\<not> patEndCDATA tagd \<and> \<not> sublist '']]>'' (drop (lastIndex thisd) (xml_text thisd))"
  then show "\<exists>tag'. prefix tagd tag' \<and>
         CHR ''>'' \<notin> set (drop (lastIndex thisd + (length tag' - length tagd)) (xml_text thisd)) \<and>
         parseCDATANode thisd tagd = raises thisd ''Unclosed CDATA tag'' tag'"
    using parseCDATANode_unclosed [of tagd thisd] by blast
next
  assume "\<not> patExternalDTDNode tage \<and> patInlineDTDNode tage \<and> \<not> patEndDTD tage \<and>
      \<not> sublist '']>'' (drop (lastIndex thise) (xml_text thise))"
  then show "\<exists>tag'. prefix tage tag' \<and>
         CHR ''>'' \<notin> set (drop (lastIndex thise + (length tag' - length tage)) (xml_text thise)) \<and>
         parseDTDNode thise tage = raises thise ''Unclosed DTD tag'' tag'"
    using parseDTDNode_unclosed [of tage thise] by blast
next
  assume "i \<le> length tx"
  then show "case nextCloseLoop patEnd tx i tag of
         Inl tag' \<Rightarrow> length tag' \<le> length tag + (length tx - i)
       | Inr (tag', j) \<Rightarrow> length tag' = length tag + (j - i) \<and> i \<le> j \<and> j \<le> length tx"
    by (rule nextCloseLoop_bounded)
next
  assume k: "proto_free (attribsKey opts) \<and> proto_free (dataKey opts)"
    and "CHR ''>'' \<in> set cc \<and> \<not> sublist ''-->'' (''<!--'' @ cc)"
  then show "\<exists>tag'. prefix (''!--'' @ takeWhile (\<lambda>x. x \<noteq> CHR ''>'') cc) tag' \<and>
            parse cp (''<!--'' @ cc) opts =
              raises (instance_at (''<!--'' @ cc) (5 + length (takeWhile (\<lambda>x. x \<noteq> CHR ''>'') cc)))
                ''Unclosed comment tag'' tag'"
    using parse_comment_unclosed [of cc opts cp] by blast
next
  assume k: "proto_free (attribsKey opts) \<and> proto_free (dataKey opts)"
    and "CHR ''>'' \<in> set cd \<and> \<not> sublist '']]>'' (''<![CDATA['' @ cd)"
  then show "\<exists>tag'. prefix (''![CDATA['' @ takeWhile (\<lambda>x. x \<noteq> CHR ''>'') cd) tag' \<and>
            parse cp (''<![CDATA['' @ cd) opts =
              raises (instance_at (''<![CDATA['' @ cd)
                  (10 + length (takeWhile (\<lambda>x. x \<noteq> CHR ''>'') cd)))
                ''Unclosed CDATA tag'' tag'"
    using parse_cdata_unclosed [of cd opts cp] by blast
next
  assume k: "proto_free (attribsKey opts) \<and> proto_free (dataKey opts)"
    and "nm \<noteq> [] \<and> list_all is_pi_name_char nm \<and> CHR ''>'' \<in> set ce \<and>
         \<not> sublist '']>'' (''<!DOCTYPE '' @ nm @ '' ['' @ ce)"
  then show "\<exists>tag'. prefix (''!DOCTYPE '' @ nm @ '' ['' @ takeWhile (\<lambda>x. x \<noteq> CHR ''>'') ce) tag' \<and>
            parse cp (''<!DOCTYPE '' @ nm @ '' ['' @ ce) opts =
              raises (instance_at (''<!DOCTYPE '' @ nm @ '' ['' @ ce)
                  (length nm + 13 + length (takeWhile (\<lambda>x. x \<noteq> CHR ''>'') ce)))
                ''Unclosed DTD tag'' tag'"
    using parse_dtd_unclosed [of nm ce opts cp] by blast
qed

theorem unclosed_special_tag_raises_witness:
  "(\<not> patEndComment ''!-- x '' \<and>
    \<not> sublist ''-->'' (drop (lastIndex (instance_at ''<a><!-- x > y -- >'' 11))
        (xml_text (instance_at ''<a><!-- x > y -- >'' 11)))) \<and>
   (\<exists>tag'. prefix ''!-- x '' tag' \<and>
      CHR ''>'' \<notin> set (drop (lastIndex (instance_at ''<a><!-- x > y -- >'' 11) +
         (length tag' - length ''!-- x '')) (xml_text (instance_at ''<a><!-- x > y -- >'' 11))) \<and>
      parseCommentNode (instance_at ''<a><!-- x > y -- >'' 11) ''!-- x '' =
      raises (instance_at ''<a><!-- x > y -- >'' 11) ''Unclosed comment tag'' tag') \<and>
   (\<not> patEndCDATA ''![CDATA[ x '' \<and>
    \<not> sublist '']]>'' (drop (lastIndex (instance_at ''<a><![CDATA[ x > y ]] >'' 16))
        (xml_text (instance_at ''<a><![CDATA[ x > y ]] >'' 16)))) \<and>
   (\<exists>tag'. prefix ''![CDATA[ x '' tag' \<and>
      CHR ''>'' \<notin> set (drop (lastIndex (instance_at ''<a><![CDATA[ x > y ]] >'' 16) +
         (length tag' - length ''![CDATA[ x ''))
         (xml_text (instance_at ''<a><![CDATA[ x > y ]] >'' 16))) \<and>
      parseCDATANode (instance_at ''<a><![CDATA[ x > y ]] >'' 16) ''![CDATA[ x '' =
      raises (instance_at ''<a><![CDATA[ x > y ]] >'' 16) ''Unclosed CDATA tag'' tag') \<and>
   (\<not> patExternalDTDNode ''!DOCTYPE a [ <!ELEMENT a'' \<and> patInlineDTDNode ''!DOCTYPE a [ <!ELEMENT a'' \<and>
    \<not> patEndDTD ''!DOCTYPE a [ <!ELEMENT a'' \<and>
    \<not> sublist '']>'' (drop (lastIndex (instance_at ''<!DOCTYPE a [ <!ELEMENT a> ] x'' 26))
        (xml_text (instance_at ''<!DOCTYPE a [ <!ELEMENT a> ] x'' 26)))) \<and>
   (\<exists>tag'. prefix ''!DOCTYPE a [ <!ELEMENT a'' tag' \<and>
      CHR ''>'' \<notin> set (drop (lastIndex (instance_at ''<!DOCTYPE a [ <!ELEMENT a> ] x'' 26) +
         (length tag' - length ''!DOCTYPE a [ <!ELEMENT a''))
         (xml_text (instance_at ''<!DOCTYPE a [ <!ELEMENT a> ] x'' 26))) \<and>
      parseDTDNode (instance_at ''<!DOCTYPE a [ <!ELEMENT a> ] x'' 26) ''!DOCTYPE a [ <!ELEMENT a'' =
      raises (instance_at ''<!DOCTYPE a [ <!ELEMENT a> ] x'' 26) ''Unclosed DTD tag'' tag') \<and>
   (0::nat) \<le> length ''x>y-->z'' \<and>
   (case nextCloseLoop patEndComment ''x>y-->z'' 0 ''!-- a'' of
      Inl tag' \<Rightarrow> length tag' \<le> length ''!-- a'' + (length ''x>y-->z'' - 0)
    | Inr (tag', j) \<Rightarrow> length tag' = length ''!-- a'' + (j - 0) \<and> 0 \<le> j \<and> j \<le> length ''x>y-->z'') \<and>
   (proto_free (attribsKey default_config) \<and> proto_free (dataKey default_config)) \<and>
   (CHR ''>'' \<in> set '' x > y -- >'' \<and> \<not> sublist ''-->'' (''<!--'' @ '' x > y -- >'')) \<and>
   (\<exists>tag'. prefix (''!--'' @ takeWhile (\<lambda>x. x \<noteq> CHR ''>'') '' x > y -- >'') tag' \<and>
      parse Xml_js (''<!--'' @ '' x > y -- >'') default_config =
        raises (instance_at (''<!--'' @ '' x > y -- >'')
            (5 + length (takeWhile (\<lambda>x. x \<noteq> CHR ''>'') '' x > y -- >'')))
          ''Unclosed comment tag'' tag') \<and>
   (CHR ''>'' \<in> set '' x > y ]] >'' \<and> \<not> sublist '']]>'' (''<![CDATA['' @ '' x > y ]] >'')) \<and>
   (\<exists>tag'. prefix (''![CDATA['' @ takeWhile (\<lambda>x. x \<noteq> CHR ''>'') '' x > y ]] >'') tag' \<and>
      parse Xml_js (''<![CDATA['' @ '' x > y ]] >'') default_config =
        raises (instance_at (''<![CDATA['' @ '' x > y ]] >'')
            (10 + length (takeWhile (\<lambda>x. x \<noteq> CHR ''>'') '' x > y ]] >'')))
          ''Unclosed CDATA tag'' tag') \<and>
   (''a'' \<noteq> [] \<and> list_all is_pi_name_char ''a'' \<and> CHR ''>'' \<in> set '' <!ELEMENT a> ] x'' \<and>
      \<not> sublist '']>'' (''<!DOCTYPE '' @ ''a'' @ '' ['' @ '' <!ELEMENT a> ] x'')) \<and>
   (\<exists>tag'. prefix (''!DOCTYPE '' @ ''a'' @ '' ['' @
        takeWhile (\<lambda>x. x \<noteq> CHR ''>'') '' <!ELEMENT a> ] x'') tag' \<and>
      parse Xml_js (''<!DOCTYPE '' @ ''a'' @ '' ['' @ '' <!ELEMENT a> ] x'') default_config =
        raises (instance_at (''<!DOCTYPE '' @ ''a'' @ '' ['' @ '' <!ELEMENT a> ] x'')
            (length ''a'' + 13 + length (takeWhile (\<lambda>x. x \<noteq> CHR ''>'') '' <!ELEMENT a> ] x'')))
          ''Unclosed DTD tag'' tag')"
proof -
  have c: "\<not> patEndComment ''!-- x '' \<and>
    \<not> sublist ''-->'' (drop (lastIndex (instance_at ''<a><!-- x > y -- >'' 11))
        (xml_text (instance_at ''<a><!-- x > y -- >'' 11)))"
    by code_simp
  have d: "\<not> patEndCDATA ''![CDATA[ x '' \<and>
    \<not> sublist '']]>'' (drop (lastIndex (instance_at ''<a><![CDATA[ x > y ]] >'' 16))
        (xml_text (instance_at ''<a><![CDATA[ x > y ]] >'' 16)))"
    by code_simp
  have e: "\<not> patExternalDTDNode ''!DOCTYPE a [ <!ELEMENT a'' \<and> patInlineDTDNode ''!DOCTYPE a [ <!ELEMENT a'' \<and>
    \<not> patEndDTD ''!DOCTYPE a [ <!ELEMENT a'' \<and>
    \<not> sublist '']>'' (drop (lastIndex (instance_at ''<!DOCTYPE a [ <!ELEMENT a> ] x'' 26))
        (xml_text (instance_at ''<!DOCTYPE a [ <!ELEMENT a> ] x'' 26)))"
    by code_simp
  have f: "(0::nat) \<le> length ''x>y-->z''" by simp
  have k: "proto_free (attribsKey default_config) \<and> proto_free (dataKey default_config)"
    by code_simp
  have pc: "CHR ''>'' \<in> set '' x > y -- >'' \<and> \<not> sublist ''-->'' (''<!--'' @ '' x > y -- >'')"
    by code_simp
  have pd: "CHR ''>'' \<in> set '' x > y ]] >'' \<and> \<not> sublist '']]>'' (''<![CDATA['' @ '' x > y ]] >'')"
    by code_simp
  have pe: "''a'' \<noteq> [] \<and> list_all is_pi_name_char ''a'' \<and> CHR ''>'' \<in> set '' <!ELEMENT a> ] x'' \<and>
      \<not> sublist '']>'' (''<!DOCTYPE '' @ ''a'' @ '' ['' @ '' <!ELEMENT a> ] x'')"
    by code_simp
  from c d e f k pc pd pe
    unclosed_special_tag_raises [where tagc = "''!-- x ''"
      and thisc = "instance_at ''<a><!-- x > y -- >'' 11"
      and tagd = "''![CDATA[ x ''" and thisd = "instance_at ''<a><![CDATA[ x > y ]] >'' 16"
      and tage = "''!DOCTYPE a [ <!ELEMENT a''"
      and thise = "instance_at ''<!DOCTYPE a [ <!ELEMENT a> ] x'' 26"
      and i = 0 and tx = "''x>y-->z''" and patEnd = patEndComment and tag = "''!-- a''"
      and opts = default_config and cp = Xml_js and cc = "'' x > y -- >''"
      and cd = "'' x > y ]] >''" and nm = "''a''" and ce = "'' <!ELEMENT a> ] x''"]
  show ?thesis by blast
qed

text \<open>
  What the instances above throw, evaluated; and a text in which no \<open>>\<close> follows the
  opening of the comment: there \<open>patTag\<close> finds no tag, no scan starts, and \<open>parse\<close>
  returns the empty tree.
\<close>

lemma unclosed_examples:
  "parse Xml_js ''<a><!-- x > y -- ></a>'' default_config =
     Thrown ''Parse Error: Unclosed comment tag on line 1: <!-- x > y -- ></a>''
       ((instance_at ''<a><!-- x > y -- ></a>'' 11)\<lparr>errors :=
          [\<lparr> err_type = ''Parse'', err_key = ''Unclosed comment tag'',
             err_text = ''<!-- x > y -- ></a>'', err_line = 1 \<rparr>]\<rparr>) \<and>
   nextCloseLoop patEndComment ''x>y-->z'' 0 ''!-- a'' = Inr (''!-- a>x>y--'', 6) \<and>
   parse Xml_js ''<!-- x'' default_config = Returned (Element [])"
  by code_simp

section \<open>Running the parser on texts with free parts\<close>

lemma patTag_exec_first:
  assumes "CHR ''<'' \<notin> set bef" and "w \<noteq> []" and "hd w \<noteq> CHR ''>''" and "CHR ''>'' \<in> set w"
  shows "patTag_exec (pre @ bef @ CHR ''<'' # w) (length pre) =
           Some (bef, takeWhile (\<lambda>x. x \<noteq> CHR ''>'') w,
                 length pre + length bef + length (takeWhile (\<lambda>x. x \<noteq> CHR ''>'') w) + 2)"
proof -
  let ?tag = "takeWhile (\<lambda>x. x \<noteq> CHR ''>'') w"
  from split_at_gt [OF assms(4)] obtain rest where w: "w = ?tag @ CHR ''>'' # rest" by blast
  from assms(2,3) have ne: "?tag \<noteq> []" by (cases w) auto
  have ng: "CHR ''>'' \<notin> set ?tag" by (auto dest: set_takeWhileD)
  from patTag_exec_tag [OF assms(1) ne ng, of pre rest] w show ?thesis by simp
qed

lemma sublist_drop_head:
  assumes "x \<noteq> []" and "hd x \<notin> set h" and "sublist x (h @ p)"
  shows "sublist x p"
proof -
  from assms(3) consider "sublist x h" | "sublist x p"
    | xs1 xs2 where "x = xs1 @ xs2" "suffix xs1 h" "prefix xs2 p"
    unfolding sublist_append by blast
  then show ?thesis
  proof cases
    case 1
    then have "set x \<subseteq> set h" by (rule set_mono_sublist)
    with assms(1,2) show ?thesis by (cases x) auto
  next
    case 2
    then show ?thesis .
  next
    case 3
    show ?thesis
    proof (cases xs1)
      case Nil
      with 3 show ?thesis by (auto intro: prefix_imp_sublist)
    next
      case (Cons y ys)
      with 3(1) have "hd x = y" by simp
      moreover from 3(2) Cons have "y \<in> set h" by (auto simp: suffix_def)
      ultimately show ?thesis using assms(2) by simp
    qed
  qed
qed

lemma sublist_drop_tail:
  assumes "x \<noteq> []" and "last x \<notin> set e" and "sublist x (p @ e)"
  shows "sublist x p"
proof -
  from assms(3) consider "sublist x p" | "sublist x e"
    | xs1 xs2 where "x = xs1 @ xs2" "suffix xs1 p" "prefix xs2 e"
    unfolding sublist_append by blast
  then show ?thesis
  proof cases
    case 1
    then show ?thesis .
  next
    case 2
    then have "set x \<subseteq> set e" by (rule set_mono_sublist)
    moreover from assms(1) have "last x \<in> set x" by simp
    ultimately show ?thesis using assms(2) by auto
  next
    case 3
    show ?thesis
    proof (cases "xs2 = []")
      case True
      with 3 show ?thesis by (auto intro: suffix_imp_sublist)
    next
      case False
      with 3(1) have "last x = last xs2" by simp
      moreover from False have "last xs2 \<in> set xs2" by simp
      moreover from 3(3) have "set xs2 \<subseteq> set e" by (auto simp: prefix_def)
      ultimately show ?thesis using assms(2) by auto
    qed
  qed
qed

lemma before_last_short: "length s < length pat \<Longrightarrow> before_last pat s = None"
proof (induction s)
  case Nil
  show ?case by simp
next
  case (Cons c cs)
  then have "before_last pat cs = None" by simp
  moreover from Cons.prems have "\<not> prefix pat (c # cs)"
    by (auto dest: prefix_length_le)
  ultimately show ?case by simp
qed

lemma before_last_end: "pat \<noteq> [] \<Longrightarrow> before_last pat (p @ pat) = Some p"
proof (induction p)
  case Nil
  then obtain c cs where pat: "pat = c # cs" by (cases pat) auto
  have "before_last pat cs = None" by (rule before_last_short) (simp add: pat)
  then show ?case by (simp add: pat)
next
  case (Cons x p)
  then show ?case by simp
qed

lemma nextCloseLoop_closed:
  assumes pe: "\<And>s. patEnd s = suffix t s"
  shows "drop i tx = u @ post \<Longrightarrow> suffix (t @ ''>'') (tag @ ''>'' @ u) \<Longrightarrow>
     \<not> sublist (t @ ''>'') (butlast (tag @ ''>'' @ u)) \<Longrightarrow>
     nextCloseLoop patEnd tx i tag = Inr (butlast (tag @ ''>'' @ u), i + length u)"
  using pe
proof (induction patEnd tx i tag arbitrary: u rule: nextCloseLoop.induct)
  case (1 patEnd tx i tag)
  note pe = "1.prems"(4)
  show ?case
  proof (cases "patEnd tag")
    case True
    then have st: "suffix (t @ ''>'') (tag @ ''>'')" by (simp add: pe)
    have "u = []"
    proof (rule ccontr)
      assume "u \<noteq> []"
      then have b: "butlast (tag @ ''>'' @ u) = (tag @ ''>'') @ butlast u"
        by (simp add: butlast_append)
      from st obtain zs where "tag @ ''>'' = zs @ t @ ''>''" by (auto simp: suffix_def)
      then have "butlast (tag @ ''>'' @ u) = zs @ (t @ ''>'') @ butlast u"
        unfolding b by simp
      then have "sublist (t @ ''>'') (butlast (tag @ ''>'' @ u))"
        unfolding sublist_def by blast
      with "1.prems"(3) show False by simp
    qed
    with True show ?thesis by (subst nextCloseLoop.simps) (simp add: butlast_append)
  next
    case False
    have une: "u \<noteq> []"
    proof
      assume "u = []"
      with "1.prems"(2) have "suffix (t @ ''>'') (tag @ ''>'')" by simp
      then have "suffix t tag" by simp
      with False show False by (simp add: pe)
    qed
    from "1.prems"(2) obtain zs where "tag @ ''>'' @ u = zs @ t @ ''>''"
      by (auto simp: suffix_def)
    then have "last (tag @ ''>'' @ u) = last (zs @ t @ ''>'')" by simp
    with une have lu: "last u = CHR ''>''" by simp
    with une have gu: "CHR ''>'' \<in> set u" by (metis last_in_set)
    let ?seg = "takeWhile (\<lambda>c. c \<noteq> CHR ''>'') u"
    from drop_dropWhile_split [OF gu]
    obtain u2 where u: "u = ?seg @ CHR ''>'' # u2" by blast
    have sg: "CHR ''>'' \<notin> set ?seg" by (auto dest: set_takeWhileD)
    have tk: "takeWhile (\<lambda>c. c \<noteq> CHR ''>'') (u @ post) = ?seg"
      using gu by (induction u) auto
    let ?j = "i + length ?seg + 1"
    have ex: "patNextClose_exec tx i = Some (?seg, ?j)"
      using gu "1.prems"(1) tk by (simp add: patNextClose_exec_def Let_def)
    have "drop ?j tx = drop (length ?seg + 1) (drop i tx)" by (simp add: add.commute)
    also have "\<dots> = drop (length ?seg + 1) ((?seg @ CHR ''>'' # u2) @ post)"
      using "1.prems"(1) u by simp
    also have "\<dots> = u2 @ post" by simp
    finally have d: "drop ?j tx = u2 @ post" .
    have same: "(tag @ ''>'' @ ?seg) @ ''>'' @ u2 = tag @ ''>'' @ u"
      using u by (metis append_assoc append_Cons append_Nil)
    have "nextCloseLoop patEnd tx ?j (tag @ ''>'' @ ?seg) =
            Inr (butlast ((tag @ ''>'' @ ?seg) @ ''>'' @ u2), ?j + length u2)"
      apply (rule "1.IH" [OF False ex refl d])
      using "1.prems"(2,3) pe unfolding same by auto
    moreover have "?j + length u2 = i + length u"
      by (subst (2) u) simp
    ultimately show ?thesis
      using False ex unfolding same by (subst nextCloseLoop.simps) simp
  qed
qed

lemma patSpecialTag_slash: "\<not> patSpecialTag (CHR ''/'' # nm)"
  by (simp add: patSpecialTag_def skip_ws_def is_space_def)

lemma parse_step_open:
  assumes tx: "xml_text this = pre @ bef @ CHR ''<'' # nm @ CHR ''>'' # rest"
    and li: "lastIndex this = length pre"
    and bef: "CHR ''<'' \<notin> set bef" "\<not> patNonSpace bef"
    and nm: "patStandardTag nm = Some (False, nm, [])" "\<not> patSpecialTag nm" "CHR ''>'' \<notin> set nm"
  shows "parse_step cp cfg branch name root this =
           Recurse branch (if lowerCase cfg then toLowerCase nm else nm) (new_leaf cfg [])
             (sync root branch (this\<lparr>lastIndex := length pre + length bef + length nm + 2\<rparr>))"
proof -
  from nm(1) have ne: "nm \<noteq> []" by (auto simp: patStandardTag_def Let_def split: if_splits)
  have "patTag_exec (xml_text this) (lastIndex this) =
          Some (bef, nm, length pre + length bef + length nm + 2)"
    unfolding tx li by (rule patTag_exec_tag [OF bef(1) ne nm(3)])
  then show ?thesis
    using bef(2) nm(1,2)
    by (simp add: parse_step_def Let_def standard_tag_def patSelfClosing_def)
qed

lemma new_leaf_Nil: "new_leaf cfg [] = []"
  by (simp add: new_leaf_def attrib_pairs_def Let_def numKeys_def)

lemma parse_step_close:
  assumes tx: "xml_text this = pre @ bef @ CHR ''<'' # CHR ''/'' # nm @ CHR ''>'' # rest"
    and li: "lastIndex this = length pre"
    and bef: "CHR ''<'' \<notin> set bef"
    and nm: "patStandardTag (CHR ''/'' # nm) = Some (True, nm, [])" "CHR ''>'' \<notin> set nm"
    and lc: "(if lowerCase cfg then toLowerCase nm else nm) = nm'"
    and ap: "(if patNonSpace bef then append_data cfg branch bef else Some branch) = Some branch1"
  shows "parse_step cp cfg branch (Some nm') root this =
           Break branch1 True
             (sync root branch1 (this\<lparr>lastIndex := length pre + length bef + length nm + 3\<rparr>))"
proof -
  have "patTag_exec (pre @ bef @ CHR ''<'' # (CHR ''/'' # nm) @ CHR ''>'' # rest) (length pre) =
          Some (bef, CHR ''/'' # nm, length pre + length bef + length (CHR ''/'' # nm) + 2)"
    by (rule patTag_exec_tag [OF bef]) (use nm(2) in auto)
  then have "patTag_exec (xml_text this) (lastIndex this) =
          Some (bef, CHR ''/'' # nm, length pre + length bef + length nm + 3)"
    unfolding tx li by simp
  then show ?thesis
    using nm(1) lc ap patSpecialTag_slash [of nm]
    by (simp add: parse_step_def Let_def standard_tag_def)
qed

section \<open>CDATA sections\<close>

lemma takeWhile_first:
  "x \<in> set q \<Longrightarrow> takeWhile (\<lambda>c. c \<noteq> x) (q @ r) = takeWhile (\<lambda>c. c \<noteq> x) q"
  by (induction q) auto

lemma drop_length_append: "drop (length a) (a @ b) = b"
  by simp

lemma patCDATANode_payload: "patCDATANode (''![CDATA['' @ p @ '']]'') = Some p"
proof -
  have a: "skip_ws (''![CDATA['' @ p @ '']]'') = CHR ''!'' # (''[CDATA['' @ p @ '']]'')"
    by (simp add: skip_ws_def is_space_def)
  have b: "skip_ws (''[CDATA['' @ p @ '']]'') = CHR ''['' # (''CDATA['' @ p @ '']]'')"
    by (simp add: skip_ws_def is_space_def)
  have c: "skip_ws (''CDATA['' @ p @ '']]'') = ''CDATA['' @ p @ '']]''"
    by (simp add: skip_ws_def is_space_def)
  have d: "skip_ws (drop 5 (''CDATA['' @ p @ '']]'')) = CHR ''['' # (p @ '']]'')"
    by (simp add: skip_ws_def is_space_def)
  have e: "prefix ''CDATA'' (''CDATA['' @ p @ '']]'')" by simp
  show ?thesis
    unfolding patCDATANode_def a list.case b c d
    using e before_last_end [of "'']]''" p] by simp
qed

lemma cdata_scan:
  assumes np: "\<not> sublist '']]>'' p"
    and tx: "tx = pre @ ''<![CDATA['' @ p @ '']]>'' @ rest"
  shows "\<exists>tag0. patTag_exec tx (length pre) = Some ([], tag0, length pre + length tag0 + 2) \<and>
           patSpecialTag tag0 \<and> \<not> patPITag tag0 \<and> \<not> patCommentTag tag0 \<and> \<not> patDTDTag tag0 \<and>
           patCDATATag tag0 \<and>
           nextCloseLoop patEndCDATA tx (length pre + length tag0 + 2) tag0 =
             Inr (''![CDATA['' @ p @ '']]'', length pre + length p + 12)"
proof -
  let ?q = "p @ '']]>''"
  let ?t1 = "takeWhile (\<lambda>c. c \<noteq> CHR ''>'') ?q"
  let ?tag0 = "''![CDATA['' @ ?t1"
  let ?w = "''![CDATA['' @ ?q @ rest"
  have gq: "CHR ''>'' \<in> set ?q" by simp
  from drop_dropWhile_split [OF gq]
  obtain u where q: "?q = ?t1 @ CHR ''>'' # u" by blast
  have tw: "takeWhile (\<lambda>c. c \<noteq> CHR ''>'') ?w = ?tag0"
    using takeWhile_first [OF gq, of rest] by simp
  have "patTag_exec (pre @ [] @ CHR ''<'' # ?w) (length pre) =
          Some ([], takeWhile (\<lambda>x. x \<noteq> CHR ''>'') ?w,
                length pre + length ([] :: string) + length (takeWhile (\<lambda>x. x \<noteq> CHR ''>'') ?w) + 2)"
    by (rule patTag_exec_first) simp_all
  then have ex: "patTag_exec tx (length pre) = Some ([], ?tag0, length pre + length ?tag0 + 2)"
    unfolding tw tx by simp
  have sp: "patSpecialTag ?tag0" "\<not> patPITag ?tag0" "\<not> patCommentTag ?tag0" "\<not> patDTDTag ?tag0"
    "patCDATATag ?tag0"
    by (simp_all add: patSpecialTag_def patPITag_def patCommentTag_def patDTDTag_def
        patCDATATag_def skip_ws_def is_space_def)
  have whole: "?tag0 @ ''>'' @ u = ''![CDATA['' @ p @ '']]>''"
    using q by (metis append_assoc append_Cons append_Nil)
  have tx': "tx = (pre @ CHR ''<'' # ?tag0 @ ''>'') @ u @ rest"
  proof -
    have "''<![CDATA['' @ p @ '']]>'' @ rest = CHR ''<'' # (''![CDATA['' @ p @ '']]>'') @ rest" by simp
    also have "\<dots> = CHR ''<'' # (?tag0 @ ''>'' @ u) @ rest" unfolding whole ..
    finally show ?thesis unfolding tx by simp
  qed
  have dr: "drop (length pre + length ?tag0 + 2) tx = u @ rest"
  proof -
    have la: "length pre + length ?tag0 + 2 = length (pre @ CHR ''<'' # ?tag0 @ ''>'')" by simp
    have "drop (length (pre @ CHR ''<'' # ?tag0 @ ''>'')) ((pre @ CHR ''<'' # ?tag0 @ ''>'') @ u @ rest) =
            u @ rest"
      by (rule drop_length_append)
    then show ?thesis unfolding la tx' [symmetric] .
  qed
  have sf: "suffix ('']]'' @ ''>'') (?tag0 @ ''>'' @ u)"
    unfolding whole by (simp add: suffix_def)
  have ns: "\<not> sublist ('']]'' @ ''>'') (butlast (?tag0 @ ''>'' @ u))"
  proof
    assume "sublist ('']]'' @ ''>'') (butlast (?tag0 @ ''>'' @ u))"
    then have "sublist '']]>'' (''![CDATA['' @ (p @ '']]''))"
      unfolding whole by (simp add: butlast_append)
    then have "sublist '']]>'' (p @ '']]'')"
      by (rule sublist_drop_head [rotated 2]) simp_all
    then have "sublist '']]>'' p"
      by (rule sublist_drop_tail [rotated 2]) simp_all
    with np show False by simp
  qed
  have "nextCloseLoop patEndCDATA tx (length pre + length ?tag0 + 2) ?tag0 =
          Inr (butlast (?tag0 @ ''>'' @ u), length pre + length ?tag0 + 2 + length u)"
    by (rule nextCloseLoop_closed [where t = "'']]''" and post = rest, OF _ dr sf ns])
       (simp add: patEndCDATA_def)
  moreover have "butlast (?tag0 @ ''>'' @ u) = ''![CDATA['' @ p @ '']]''"
    unfolding whole by (simp add: butlast_append)
  moreover have "length pre + length ?tag0 + 2 + length u = length pre + length p + 12"
  proof -
    have "length (?tag0 @ ''>'' @ u) = length (''![CDATA['' @ p @ '']]>'')"
      unfolding whole ..
    then show ?thesis by simp
  qed
  ultimately show ?thesis using ex sp by (intro exI [of _ ?tag0]) simp
qed

lemma parse_step_cdata:
  assumes np: "\<not> sublist '']]>'' p"
    and tx: "xml_text this = pre @ ''<![CDATA['' @ p @ '']]>'' @ rest"
    and li: "lastIndex this = length pre"
    and ap: "append_data cfg branch p = Some branch1"
  shows "parse_step cp cfg branch name root this =
           Continue branch1 (sync root branch1 (this\<lparr>lastIndex := length pre + length p + 12\<rparr>))"
proof -
  from cdata_scan [OF np tx] obtain tag0 where
    ex: "patTag_exec (xml_text this) (length pre) = Some ([], tag0, length pre + length tag0 + 2)"
    and sp: "patSpecialTag tag0" "\<not> patPITag tag0" "\<not> patCommentTag tag0" "\<not> patDTDTag tag0"
      "patCDATATag tag0"
    and lp: "nextCloseLoop patEndCDATA (xml_text this) (length pre + length tag0 + 2) tag0 =
             Inr (''![CDATA['' @ p @ '']]'', length pre + length p + 12)"
    by blast
  have "parseCDATANode (sync root branch (this\<lparr>lastIndex := length pre + length tag0 + 2\<rparr>)) tag0 =
          Returned (p, (sync root branch (this\<lparr>lastIndex := length pre + length tag0 + 2\<rparr>))
             \<lparr>lastIndex := length pre + length p + 12\<rparr>)"
    using lp patCDATANode_payload [of p]
    by (simp add: parseCDATANode_def sync_def Let_def)
  then show ?thesis
    using ex sp ap li
    by (simp add: parse_step_def Let_def patNonSpace_def special_tag_def sync_def)
qed

lemma obj_set_Nil: "obj_set [] k v = [(k, v)]"
  by (simp add: obj_set_def)

lemma append_data_fresh:
  "\<not> inherited_member (dataKey cfg) \<Longrightarrow>
     append_data cfg [] s = Some [(dataKey cfg, Text (data_text cfg s))]"
  by (simp add: append_data_def obj_get_def obj_set_Nil)

lemma compress_text:
  "compress cp cfg [(dataKey cfg, Text d)] = Text d"
  by (simp add: compress_def obj_get_def numKeys_def)

lemma tag_a: "patStandardTag ''a'' = Some (False, ''a'', [])" "\<not> patSpecialTag ''a''"
  "patStandardTag ''/a'' = Some (True, ''a'', [])" "toLowerCase ''a'' = ''a''"
  "\<not> inherited_member ''a''"
  by code_simp+

lemma data_keys: "\<not> inherited_member ''_Data''" "\<not> inherited_member ''_data''"
  "toLowerCase ''_Data'' = ''_data''" "toLowerCase ''_Attribs'' = ''_attribs''"
  by code_simp+

lemma cdata_document:
  assumes np: "\<not> sublist '']]>'' p"
    and dk: "dataKey cfg = ''_Data'' \<or> dataKey cfg = ''_data''"
  shows "XML_parse cp cfg (Suc (Suc (Suc n))) [] None True
           (instance_at (''<a><![CDATA['' @ p @ '']]></a>'') 0) =
         Returned ([(''a'', Text (data_text cfg p))],
           (instance_at (''<a><![CDATA['' @ p @ '']]></a>'') (length p + 19))
             \<lparr>tree := (if preserveDocumentNode cfg then Element [(''a'', Text (data_text cfg p))]
                        else Text (data_text cfg p)),
              documentNodeName := Some ''a''\<rparr>)"
proof -
  define tx where "tx = ''<a><![CDATA['' @ p @ '']]></a>''"
  let ?d = "Text (data_text cfg p)"
  let ?leaf = "[(dataKey cfg, ?d)]"
  from dk have ni: "\<not> inherited_member (dataKey cfg)" and na: "dataKey cfg \<noteq> ''a''"
    by (auto simp: data_keys)
  have s1: "parse_step cp cfg [] None True (instance_at tx 0) =
              Recurse [] ''a'' [] (instance_at tx 3)"
  proof -
    have "parse_step cp cfg [] None True (instance_at tx 0) =
           Recurse [] (if lowerCase cfg then toLowerCase ''a'' else ''a'') (new_leaf cfg [])
             (sync True [] ((instance_at tx 0)\<lparr>lastIndex := length ([] :: string) +
                length ([] :: string) + length ''a'' + 2\<rparr>))"
      by (rule parse_step_open [where rest = "''<![CDATA['' @ p @ '']]></a>''"])
         (simp_all add: instance_at_def tag_a patNonSpace_def tx_def)
    then show ?thesis by (simp add: tag_a new_leaf_Nil sync_def instance_at_def)
  qed
  have s2: "parse_step cp cfg [] (Some ''a'') False (instance_at tx 3) =
              Continue ?leaf (instance_at tx (length p + 15))"
  proof -
    have "parse_step cp cfg [] (Some ''a'') False (instance_at tx 3) =
           Continue ?leaf (sync False ?leaf ((instance_at tx 3)\<lparr>lastIndex :=
              length ''<a>'' + length p + 12\<rparr>))"
      by (rule parse_step_cdata [OF np, where rest = "''</a>''"])
         (simp_all add: instance_at_def append_data_fresh [OF ni] tx_def)
    then show ?thesis by (simp add: sync_def instance_at_def)
  qed
  have s3: "parse_step cp cfg ?leaf (Some ''a'') False (instance_at tx (length p + 15)) =
              Break ?leaf True (instance_at tx (length p + 19))"
  proof -
    have "parse_step cp cfg ?leaf (Some ''a'') False (instance_at tx (length p + 15)) =
           Break ?leaf True (sync False ?leaf ((instance_at tx (length p + 15))\<lparr>lastIndex :=
              length (''<a><![CDATA['' @ p @ '']]>'') + length ([] :: string) + length ''a'' + 3\<rparr>))"
      by (rule parse_step_close [where rest = "[]" and bef = "[]"])
         (simp_all add: instance_at_def tag_a patNonSpace_def tx_def)
    then show ?thesis by (simp add: sync_def instance_at_def)
  qed
  have inner: "XML_parse cp cfg (Suc (Suc n)) [] (Some ''a'') False (instance_at tx 3) =
                 Returned (?leaf, instance_at tx (length p + 19))"
    by (simp add: s2 s3 leave_def parse_finish_def)
  have att: "after_recursion cp cfg [] True ''a'' ?leaf (instance_at tx (length p + 19)) =
               Break [(''a'', ?d)] False
                 ((instance_at tx (length p + 19))\<lparr>tree := Element [(''a'', ?d)]\<rparr>)"
    by (simp add: after_recursion_def attach_def compress_text add_leaf_def obj_get_def tag_a
        obj_set_Nil sync_def Let_def error_def instance_at_def)
  have fin: "parse_finish cfg [(''a'', ?d)] None True False
               ((instance_at tx (length p + 19))\<lparr>tree := Element [(''a'', ?d)]\<rparr>) =
             Returned ([(''a'', ?d)],
               (instance_at tx (length p + 19))
                 \<lparr>tree := (if preserveDocumentNode cfg then Element [(''a'', ?d)] else ?d),
                  documentNodeName := Some ''a''\<rparr>)"
    using ni na by (simp add: parse_finish_def obj_get_def Let_def numKeys_def instance_at_def)
  have "XML_parse cp cfg (Suc (Suc (Suc n))) [] None True (instance_at tx 0) =
         Returned ([(''a'', ?d)],
           (instance_at tx (length p + 19))
             \<lparr>tree := (if preserveDocumentNode cfg then Element [(''a'', ?d)] else ?d),
              documentNodeName := Some ''a''\<rparr>)"
    by (subst XML_parse.simps(2)) (simp add: s1 inner att leave_def fin del: XML_parse.simps)
  then show ?thesis unfolding tx_def .
qed

text \<open>
  C4, as stated: the payload \<open><b>&amp;\<close> would come back unchanged. It does not: the
  parser passes the payload through \<open>decodeEntities\<close>.
\<close>

theorem cdata_literal_counterexample:
  "parse Xml_js ''<a><![CDATA[<b>&amp;]]></a>'' default_config \<noteq> Returned (Text ''<b>&amp;'') \<and>
   parse Xml_js ''<a><![CDATA[<b>&amp;]]></a>'' (default_config\<lparr>preserveDocumentNode := True\<rparr>)
     \<noteq> Returned (Element [(''a'', Text ''<b>&amp;'')])"
  by code_simp

text \<open>
  C4, amended: whatever the payload \<open>p\<close> of the CDATA section of \<open><a><![CDATA[p]]></a>\<close>
  is, as long as it does not hold the terminator \<open>]]>\<close>, it is not scanned for tags; it
  becomes the value of \<open>a\<close> after \<open>decodeEntities\<close>, and after \<open>trim\<close> unless
  \<open>preserveWhitespace\<close> is set. This holds in both copies, for every setting of the
  flags, with the default reserved keys; with \<open>preserveDocumentNode\<close> the tree is the
  mapping that holds \<open>a\<close>. A payload of white space only gives the empty string.
\<close>

theorem cdata_payload_decoded:
  assumes "\<not> sublist '']]>'' p" and "dataKey opts = ''_Data''" and "attribsKey opts = ''_Attribs''"
  shows "parse cp (''<a><![CDATA['' @ p @ '']]></a>'') opts =
     Returned
       (if preserveDocumentNode opts
        then Element [(''a'', Text (if preserveWhitespace opts then decodeEntities p
                                    else trim (decodeEntities p)))]
        else Text (if preserveWhitespace opts then decodeEntities p
                   else trim (decodeEntities p)))"
proof -
  define tx where "tx = ''<a><![CDATA['' @ p @ '']]></a>''"
  let ?cfg = "if lowerCase opts
              then opts\<lparr>attribsKey := toLowerCase (attribsKey opts),
                        dataKey := toLowerCase (dataKey opts)\<rparr>
              else opts"
  have dk: "dataKey ?cfg = ''_Data'' \<or> dataKey ?cfg = ''_data''"
    using assms(2) by (simp add: data_keys)
  have k: "attribsKey ?cfg \<noteq> ''__proto__''" "dataKey ?cfg \<noteq> ''__proto__''"
    using assms(2,3) by (simp_all add: data_keys)
  have ne: "tx \<noteq> []" by (simp add: tx_def)
  have len: "length tx = Suc (Suc (length p + 17))" by (simp add: tx_def)
  have "XML_parse cp ?cfg (Suc (Suc (Suc (length p + 17)))) [] None True (instance_at tx 0) =
         Returned ([(''a'', Text (data_text ?cfg p))],
           (instance_at tx (length p + 19))
             \<lparr>tree := (if preserveDocumentNode ?cfg then Element [(''a'', Text (data_text ?cfg p))]
                        else Text (data_text ?cfg p)),
              documentNodeName := Some ''a''\<rparr>)"
    unfolding tx_def by (rule cdata_document [OF assms(1) dk])
  then have "XML_constructor cp opts tx =
         Returned ((instance_at tx (length p + 19))
             \<lparr>tree := (if preserveDocumentNode ?cfg then Element [(''a'', Text (data_text ?cfg p))]
                        else Text (data_text ?cfg p)),
              documentNodeName := Some ''a''\<rparr>)"
    using ne k unfolding XML_constructor_def Let_def len instance_at_def
    by (simp del: XML_parse.simps)
  then have "parse cp tx opts =
     Returned (if preserveDocumentNode ?cfg then Element [(''a'', Text (data_text ?cfg p))]
               else Text (data_text ?cfg p))"
    by (simp add: parse_def error_def getTree_def instance_at_def)
  moreover have "data_text ?cfg p =
      (if preserveWhitespace opts then decodeEntities p else trim (decodeEntities p))"
    by (simp add: data_text_def)
  moreover have "preserveDocumentNode ?cfg = preserveDocumentNode opts" by simp
  ultimately show ?thesis unfolding tx_def by simp
qed

theorem cdata_payload_decoded_witness:
  "(\<not> sublist '']]>'' ''<b>&amp;'' \<and> dataKey default_config = ''_Data'' \<and>
    attribsKey default_config = ''_Attribs'') \<and>
   parse Xml_js ''<a><![CDATA[<b>&amp;]]></a>'' default_config = Returned (Text ''<b>&'') \<and>
   parse Part_000 ''<a><![CDATA[ <b> &amp; ]]></a>''
       (default_config\<lparr>preserveWhitespace := True, preserveDocumentNode := True\<rparr>) =
     Returned (Element [(''a'', Text '' <b> & '')]) \<and>
   parse Xml_js ''<a><![CDATA[ ]]></a>'' default_config = Returned (Text [])"
proof -
  have h: "\<not> sublist '']]>'' ''<b>&amp;''" "\<not> sublist '']]>'' '' <b> &amp; ''"
    "\<not> sublist '']]>'' '' ''"
    by code_simp+
  have k: "dataKey default_config = ''_Data''" "attribsKey default_config = ''_Attribs''"
    "dataKey (default_config\<lparr>preserveWhitespace := True, preserveDocumentNode := True\<rparr>) = ''_Data''"
    "attribsKey (default_config\<lparr>preserveWhitespace := True, preserveDocumentNode := True\<rparr>) = ''_Attribs''"
    by (simp_all add: default_config_def)
  have v: "trim (decodeEntities ''<b>&amp;'') = ''<b>&''"
    "decodeEntities '' <b> &amp; '' = '' <b> & ''"
    "trim (decodeEntities '' '') = []"
    by code_simp+
  from cdata_payload_decoded [OF h(1) k(1,2), of Xml_js]
    cdata_payload_decoded [OF h(2) k(3,4), of Part_000]
    cdata_payload_decoded [OF h(3) k(1,2), of Xml_js]
    h(1) k(1,2) v
  show ?thesis by (simp add: default_config_def)
qed

text \<open>
  Unlike a CDATA section, text between tags is added only when it holds a character that
  is not white space.
\<close>

lemma blank_text_and_blank_cdata:
  "parse Xml_js ''<a> </a>'' default_config = Returned (Element []) \<and>
   parse Xml_js ''<a> <![CDATA[ ]]> </a>'' default_config = Returned (Text [])"
  by code_simp

section \<open>Repeated children\<close>









section \<open>Claims settled by running the parser\<close>

text \<open>
  C10. Parsing the empty string succeeds, for either copy and any options: the
  constructor does not call \<open>XML.parse\<close> for an empty text, so the instance keeps no error,
  the empty tree \<open>{}\<close> and the empty string as \<open>documentNodeName\<close>, and \<open>parse\<close> returns
  the empty tree.
\<close>

theorem parse_empty_text:
  "\<exists>this. XML_constructor cp opts [] = Returned this \<and> error this = 0 \<and>
     documentNodeName this = Some [] \<and> getTree this = Element [] \<and>
     parse cp [] opts = Returned (Element [])"
  by (simp add: XML_constructor_def parse_def error_def getTree_def Let_def)

theorem parse_empty_text_witness:
  "\<exists>this. XML_constructor Xml_js default_config [] = Returned this \<and> error this = 0 \<and>
     documentNodeName this = Some [] \<and> getTree this = Element [] \<and>
     parse Xml_js [] default_config = Returned (Element [])"
  by (rule parse_empty_text [of Xml_js default_config])

text \<open>
  C3. The input \<open><a/><b/>\<close> is parsed without any error: the loop of the master node
  is left behind the first top-level tag, so \<open><b/>\<close> is never read and the tree of
  \<open><a/>\<close> is returned (\<open>{}\<close>, or the empty string in the second copy).
\<close>

theorem second_root_not_reported:
  "parse Xml_js ''<a/><b/>'' default_config = Returned (Element []) \<and>
   parse Part_000 ''<a/><b/>'' default_config = Returned (Text []) \<and>
   XML_constructor Xml_js (default_config\<lparr>preserveDocumentNode := True\<rparr>) ''<a/><b/>'' =
     Returned \<lparr> xml_text = ''<a/><b/>'', lastIndex = 4, errors = [], piNodeList = [],
       dtdNodeList = [], tree = Element [(''a'', Element [])], documentNodeName = Some ''a'' \<rparr>"
  by code_simp


end
